theory Spec2Isabelle
  imports Main
begin

section \<open>Shared types\<close>

text \<open>
  A \<open>PathBuf\<close> is kept as its list of components, which is what Rust compares and hashes
  when a path is a map key.  \<open>anyhow::Error\<close> is a value of the datatype \<open>error\<close>; every
  \<open>?\<close>, every \<open>bail!\<close> and every panicking \<open>unwrap\<close> of the source is an \<open>Inl\<close>
  branch of the model.
\<close>

type_synonym PathBuf = "string list"

datatype pest_error = ParsingError

datatype error =
    Io string
  | Pest pest_error
  | ParseInt string
  | Bail string
  | Decode string
  | Panic string

section \<open>The grammar (bazel-lsp/src/bazel/build.pest) and the parser pest derives from it\<close>

text \<open>
  \<open>Rule\<close> is the enum that \<open>pest_derive\<close> generates: one constructor per grammar rule,
  and the built-in \<open>EOI\<close>.  A \<open>Pair\<close> is a node of the parse tree: the rule it matched,
  the text of its span, the line and column where the span starts (both from 1) and the
  pairs of the rules matched inside it.
\<close>

datatype Rule =
    Rule_EOI
  | Rule_WHITESPACE
  | Rule_COMMENT
  | Rule_identifier
  | Rule_string
  | Rule_number
  | Rule_boolean
  | Rule_target_ref
  | Rule_list
  | Rule_list_item
  | Rule_dict
  | Rule_dict_entry
  | Rule_value
  | Rule_function_call
  | Rule_argument
  | Rule_load_stmt
  | Rule_assignment
  | Rule_statement
  | Rule_file

datatype Pair =
  MkPair (as_rule: Rule) (as_str: string) (line_col: "nat \<times> nat") (into_inner: "Pair list")

text \<open>
  Grammar expressions.  \<open>Seq a b\<close> is \<open>a ~ b\<close>, \<open>Choice a b\<close> is \<open>a | b\<close>, \<open>Opt a\<close> is
  \<open>a?\<close>, \<open>Rep a\<close> is \<open>a*\<close>, \<open>Not a\<close> is \<open>!a\<close>.  \<open>Skip\<close> and \<open>RepTail\<close> do not occur in a
  grammar: they are the implicit whitespace between the parts of a sequence and the
  \<open>(skip ~ a)*\<close> loop that a repetition unfolds to.
\<close>

datatype expr =
    Str string
  | ANY
  | ASCII_ALPHA
  | ASCII_DIGIT
  | ASCII_ALPHANUMERIC
  | SOI
  | EOI
  | Call Rule
  | Seq expr expr
  | Choice expr expr
  | Opt expr
  | Rep expr
  | Not expr
  | Skip
  | RepTail expr

text \<open>\<open>a+\<close> is \<open>a ~ a*\<close>.\<close>

definition Plus :: "expr \<Rightarrow> expr" where
  "Plus a = Seq a (Rep a)"

text \<open>
  A rule written with braces alone is normal, one with a leading underscore is silent,
  one with a leading at-sign is atomic.
\<close>

datatype rule_type = Normal | Silent | Atomic

fun grammar :: "Rule \<Rightarrow> rule_type \<times> expr" where
  "grammar Rule_WHITESPACE =
     (Silent, Choice (Str '' '') (Choice (Str [CHR 0x09]) (Choice (Str [CHR 0x0D]) (Str [CHR 0x0A]))))"
| "grammar Rule_COMMENT =
     (Silent, Seq (Str ''#'') (Rep (Seq (Not (Str [CHR 0x0A])) ANY)))"
| "grammar Rule_identifier =
     (Atomic, Seq (Choice ASCII_ALPHA (Str ''_'')) (Rep (Choice ASCII_ALPHANUMERIC (Str ''_''))))"
| "grammar Rule_string =
     (Atomic,
      Choice (Seq (Str [CHR 0x22]) (Seq (Rep (Seq (Not (Str [CHR 0x22])) ANY)) (Str [CHR 0x22])))
             (Seq (Str [CHR 0x27]) (Seq (Rep (Seq (Not (Str [CHR 0x27])) ANY)) (Str [CHR 0x27]))))"
| "grammar Rule_number = (Atomic, Seq (Opt (Str ''-'')) (Plus ASCII_DIGIT))"
| "grammar Rule_boolean = (Normal, Choice (Str ''True'') (Str ''False''))"
| "grammar Rule_target_ref =
     (Atomic,
      Choice (Seq (Str ''//'')
                (Seq (Rep (Seq (Not (Str '':'')) (Seq (Not (Call Rule_WHITESPACE)) ANY)))
                   (Seq (Str '':'') (Call Rule_identifier))))
        (Choice (Seq (Str '':'') (Call Rule_identifier))
           (Call Rule_identifier)))"
| "grammar Rule_list =
     (Normal,
      Seq (Str ''['')
        (Seq (Opt (Seq (Call Rule_list_item) (Rep (Seq (Str '','') (Call Rule_list_item)))))
           (Seq (Opt (Str '','')) (Str '']''))))"
| "grammar Rule_list_item =
     (Normal,
      Choice (Call Rule_string) (Choice (Call Rule_target_ref) (Choice (Call Rule_number)
        (Choice (Call Rule_boolean) (Choice (Call Rule_list) (Choice (Call Rule_dict)
          (Call Rule_function_call)))))))"
| "grammar Rule_dict =
     (Normal,
      Seq (Str ''{'')
        (Seq (Opt (Seq (Call Rule_dict_entry) (Rep (Seq (Str '','') (Call Rule_dict_entry)))))
           (Seq (Opt (Str '','')) (Str ''}''))))"
| "grammar Rule_dict_entry = (Normal, Seq (Call Rule_string) (Seq (Str '':'') (Call Rule_value)))"
| "grammar Rule_value =
     (Normal,
      Choice (Call Rule_string) (Choice (Call Rule_number) (Choice (Call Rule_boolean)
        (Choice (Call Rule_list) (Choice (Call Rule_dict) (Choice (Call Rule_function_call)
          (Call Rule_identifier)))))))"
| "grammar Rule_function_call =
     (Normal,
      Seq (Call Rule_identifier) (Seq (Str ''('')
        (Seq (Opt (Seq (Call Rule_argument) (Rep (Seq (Str '','') (Call Rule_argument)))))
           (Seq (Opt (Str '','')) (Str '')'')))))"
| "grammar Rule_argument =
     (Normal,
      Choice (Seq (Call Rule_identifier) (Seq (Str ''='') (Call Rule_value))) (Call Rule_value))"
| "grammar Rule_load_stmt =
     (Normal,
      Seq (Str ''load'') (Seq (Str ''('') (Seq (Call Rule_string)
        (Seq (Rep (Seq (Str '','') (Seq (Call Rule_string) (Seq (Str ''='') (Call Rule_string)))))
           (Str '')'')))))"
| "grammar Rule_assignment =
     (Normal, Seq (Call Rule_identifier) (Seq (Str ''='') (Call Rule_value)))"
| "grammar Rule_statement =
     (Normal, Choice (Call Rule_load_stmt) (Choice (Call Rule_function_call) (Call Rule_assignment)))"
| "grammar Rule_file = (Normal, Seq SOI (Seq (Rep (Call Rule_statement)) EOI))"
| "grammar Rule_EOI = (Normal, EOI)"

text \<open>
  The implicit whitespace of a non-atomic sequence or repetition:
  \<open>WHITESPACE* ~ (COMMENT ~ WHITESPACE*)*\<close>, itself matched atomically.
\<close>

definition skip_expr :: expr where
  "skip_expr =
     Seq (Rep (Call Rule_WHITESPACE)) (Rep (Seq (Call Rule_COMMENT) (Rep (Call Rule_WHITESPACE))))"

text \<open>
  A position in the input: the text still to read, the offset reached, and the line and
  column of that offset.
\<close>

datatype Position = Position (rest: string) (offset: nat) (pline: nat) (pcol: nat)

fun advance1 :: "char \<Rightarrow> Position \<Rightarrow> Position" where
  "advance1 c (Position r k l m) =
     (if c = CHR 0x0A then Position (tl r) (Suc k) (Suc l) 1
      else Position (tl r) (Suc k) l (Suc m))"

fun advance :: "nat \<Rightarrow> Position \<Rightarrow> Position" where
  "advance 0 p = p"
| "advance (Suc n) p = (case rest p of [] \<Rightarrow> p | c # cs \<Rightarrow> advance n (advance1 c p))"

definition span :: "Position \<Rightarrow> Position \<Rightarrow> string" where
  "span p q = take (offset q - offset p) (rest p)"

definition is_ascii_digit :: "char \<Rightarrow> bool" where
  "is_ascii_digit c = (let n = (of_char c :: nat) in 48 \<le> n \<and> n \<le> 57)"

definition is_ascii_alpha :: "char \<Rightarrow> bool" where
  "is_ascii_alpha c =
     (let n = (of_char c :: nat) in (97 \<le> n \<and> n \<le> 122) \<or> (65 \<le> n \<and> n \<le> 90))"

fun starts_with :: "string \<Rightarrow> string \<Rightarrow> bool" where
  "starts_with s [] = True"
| "starts_with [] (c # cs) = False"
| "starts_with (d # ds) (c # cs) = (d = c \<and> starts_with ds cs)"

text \<open>
  Matching an expression either succeeds with the pairs produced and the position
  reached, or fails (the caller then resumes from its own position, which is how pest
  backtracks), or runs out of the depth it was given.
\<close>

datatype 'a outcome = Matched 'a | NoMatch | Timeout

type_synonym matched = "(Pair list \<times> Position) outcome"

definition one_char :: "(char \<Rightarrow> bool) \<Rightarrow> Position \<Rightarrow> matched" where
  "one_char ok p =
     (case rest p of
        [] \<Rightarrow> NoMatch
      | c # cs \<Rightarrow> if ok c then Matched ([], advance1 c p) else NoMatch)"

text \<open>
  \<open>pmatch n atomic e p\<close> matches \<open>e\<close> at \<open>p\<close> with recursion depth at most \<open>n\<close>.  Under
  \<open>atomic\<close> there is no implicit whitespace and no pair is produced.  A normal rule
  wraps the pairs of its body in a pair of its own; an atomic rule matches its body
  atomically and produces a pair without children; a silent rule produces no pair of
  its own (\<open>WHITESPACE\<close> and \<open>COMMENT\<close> are also matched atomically).
\<close>

fun pmatch :: "nat \<Rightarrow> bool \<Rightarrow> expr \<Rightarrow> Position \<Rightarrow> matched" where
  "pmatch 0 atomic e p = Timeout"
| "pmatch (Suc n) atomic (Str s) p =
     (if starts_with (rest p) s then Matched ([], advance (length s) p) else NoMatch)"
| "pmatch (Suc n) atomic ANY p = one_char (\<lambda>c. True) p"
| "pmatch (Suc n) atomic ASCII_ALPHA p = one_char is_ascii_alpha p"
| "pmatch (Suc n) atomic ASCII_DIGIT p = one_char is_ascii_digit p"
| "pmatch (Suc n) atomic ASCII_ALPHANUMERIC p = one_char (\<lambda>c. is_ascii_alpha c \<or> is_ascii_digit c) p"
| "pmatch (Suc n) atomic SOI p = (if offset p = 0 then Matched ([], p) else NoMatch)"
| "pmatch (Suc n) atomic EOI p =
     (if rest p = [] then Matched (if atomic then [] else [MkPair Rule_EOI [] (pline p, pcol p) []], p)
      else NoMatch)"
| "pmatch (Suc n) atomic (Call r) p =
     (case grammar r of
        (Silent, e) \<Rightarrow>
          pmatch n (atomic \<or> r = Rule_WHITESPACE \<or> r = Rule_COMMENT) e p
      | (Normal, e) \<Rightarrow>
          (case pmatch n atomic e p of
             Matched (inner, q) \<Rightarrow>
               Matched (if atomic then [] else [MkPair r (span p q) (pline p, pcol p) inner], q)
           | NoMatch \<Rightarrow> NoMatch
           | Timeout \<Rightarrow> Timeout)
      | (Atomic, e) \<Rightarrow>
          (case pmatch n True e p of
             Matched (inner, q) \<Rightarrow>
               Matched (if atomic then [] else [MkPair r (span p q) (pline p, pcol p) []], q)
           | NoMatch \<Rightarrow> NoMatch
           | Timeout \<Rightarrow> Timeout))"
| "pmatch (Suc n) atomic (Seq a b) p =
     (case pmatch n atomic a p of
        Matched (ps, q) \<Rightarrow>
          (case pmatch n atomic Skip q of
             Matched (ws, q') \<Rightarrow>
               (case pmatch n atomic b q' of
                  Matched (qs, q'') \<Rightarrow> Matched (ps @ qs, q'')
                | NoMatch \<Rightarrow> NoMatch
                | Timeout \<Rightarrow> Timeout)
           | NoMatch \<Rightarrow> NoMatch
           | Timeout \<Rightarrow> Timeout)
      | NoMatch \<Rightarrow> NoMatch
      | Timeout \<Rightarrow> Timeout)"
| "pmatch (Suc n) atomic (Choice a b) p =
     (case pmatch n atomic a p of
        Matched x \<Rightarrow> Matched x
      | NoMatch \<Rightarrow> pmatch n atomic b p
      | Timeout \<Rightarrow> Timeout)"
| "pmatch (Suc n) atomic (Opt a) p =
     (case pmatch n atomic a p of
        Matched x \<Rightarrow> Matched x
      | NoMatch \<Rightarrow> Matched ([], p)
      | Timeout \<Rightarrow> Timeout)"
| "pmatch (Suc n) atomic (Rep a) p =
     (case pmatch n atomic a p of
        Matched (ps, q) \<Rightarrow>
          (case pmatch n atomic (RepTail a) q of
             Matched (qs, q') \<Rightarrow> Matched (ps @ qs, q')
           | NoMatch \<Rightarrow> NoMatch
           | Timeout \<Rightarrow> Timeout)
      | NoMatch \<Rightarrow> Matched ([], p)
      | Timeout \<Rightarrow> Timeout)"
| "pmatch (Suc n) atomic (RepTail a) p =
     (case pmatch n atomic Skip p of
        Matched (ws, q) \<Rightarrow>
          (case pmatch n atomic a q of
             Matched (ps, q') \<Rightarrow>
               (case pmatch n atomic (RepTail a) q' of
                  Matched (qs, q'') \<Rightarrow> Matched (ps @ qs, q'')
                | NoMatch \<Rightarrow> NoMatch
                | Timeout \<Rightarrow> Timeout)
           | NoMatch \<Rightarrow> Matched ([], p)
           | Timeout \<Rightarrow> Timeout)
      | NoMatch \<Rightarrow> Matched ([], p)
      | Timeout \<Rightarrow> Timeout)"
| "pmatch (Suc n) atomic (Not a) p =
     (case pmatch n atomic a p of
        Matched x \<Rightarrow> NoMatch
      | NoMatch \<Rightarrow> Matched ([], p)
      | Timeout \<Rightarrow> Timeout)"
| "pmatch (Suc n) atomic Skip p =
     (if atomic then Matched ([], p)
      else (case pmatch n True skip_expr p of
              Matched (ws, q) \<Rightarrow> Matched ([], q)
            | NoMatch \<Rightarrow> NoMatch
            | Timeout \<Rightarrow> Timeout))"

text \<open>
  \<open>BuildParser::parse(rule, input)\<close>.  The depth allowed grows with the input and is
  never exhausted (\<open>pmatch_bound_not_reached\<close> below), so the last case does not arise.
\<close>

definition BuildParser_parse :: "Rule \<Rightarrow> string \<Rightarrow> pest_error + Pair list" where
  "BuildParser_parse r input =
     (case pmatch (24 * length input + 24) False (Call r) (Position input 0 1 1) of
        Matched (ps, p) \<Rightarrow> Inr ps
      | NoMatch \<Rightarrow> Inl ParsingError
      | Timeout \<Rightarrow> Inl ParsingError)"

subsection \<open>How deep a match goes\<close>

text \<open>
  What the bound rests on.  \<open>consumes e\<close> holds when a match of \<open>e\<close> reads at least one
  character.  \<open>mode\<close> is the atomicity in which the body of a rule is matched.
  \<open>need a e\<close> bounds the depth of the calls made for \<open>e\<close> before a character is read,
  with \<open>rank r\<close> for the body of the rule \<open>r\<close> and \<open>skip_rank\<close> for the implicit
  whitespace; once a character has been read, a depth of \<open>fresh\<close> is enough again,
  which is what \<open>wf\<close> checks, together with every repetition having a body that
  consumes.
\<close>

fun consumes :: "expr \<Rightarrow> bool" where
  "consumes (Str s) = (s \<noteq> [])"
| "consumes ANY = True"
| "consumes ASCII_ALPHA = True"
| "consumes ASCII_DIGIT = True"
| "consumes ASCII_ALPHANUMERIC = True"
| "consumes (Call r) = (r \<noteq> Rule_file \<and> r \<noteq> Rule_EOI)"
| "consumes (Seq a b) = (consumes a \<or> consumes b)"
| "consumes (Choice a b) = (consumes a \<and> consumes b)"
| "consumes e = False"

definition mode :: "bool \<Rightarrow> Rule \<Rightarrow> bool" where
  "mode atomic r =
     (case fst (grammar r) of
        Normal \<Rightarrow> atomic
      | Silent \<Rightarrow> atomic \<or> r = Rule_WHITESPACE \<or> r = Rule_COMMENT
      | Atomic \<Rightarrow> True)"

fun rank :: "Rule \<Rightarrow> nat" where
  "rank Rule_EOI = 1"
| "rank Rule_WHITESPACE = 4"
| "rank Rule_COMMENT = 2"
| "rank Rule_identifier = 3"
| "rank Rule_string = 3"
| "rank Rule_number = 3"
| "rank Rule_boolean = 2"
| "rank Rule_target_ref = 6"
| "rank Rule_list = 9"
| "rank Rule_list_item = 16"
| "rank Rule_dict = 9"
| "rank Rule_dict_entry = 9"
| "rank Rule_value = 16"
| "rank Rule_function_call = 9"
| "rank Rule_argument = 18"
| "rank Rule_load_stmt = 9"
| "rank Rule_assignment = 9"
| "rank Rule_statement = 12"
| "rank Rule_file = 16"

definition skip_rank :: nat where
  "skip_rank = 7"

definition fresh :: nat where
  "fresh = 24"

fun need :: "bool \<Rightarrow> expr \<Rightarrow> nat" where
  "need a (Call r) = Suc (rank r)"
| "need a Skip = (if a then 1 else Suc skip_rank)"
| "need a (Seq x y) =
     Suc (max (need a x) (max (need a Skip) (if consumes x then 0 else need a y)))"
| "need a (Choice x y) = Suc (max (need a x) (need a y))"
| "need a (Opt x) = Suc (need a x)"
| "need a (Not x) = Suc (need a x)"
| "need a (Rep x) = Suc (need a x)"
| "need a (RepTail x) = Suc (max (need a Skip) (need a x))"
| "need a e = 1"

fun wf :: "bool \<Rightarrow> expr \<Rightarrow> bool" where
  "wf a (Seq x y) = (wf a x \<and> wf a y \<and> (consumes x \<longrightarrow> need a y \<le> fresh))"
| "wf a (Choice x y) = (wf a x \<and> wf a y)"
| "wf a (Opt x) = wf a x"
| "wf a (Not x) = wf a x"
| "wf a (Rep x) = (wf a x \<and> consumes x \<and> need a (RepTail x) \<le> fresh)"
| "wf a (RepTail x) = (wf a x \<and> consumes x \<and> need a (RepTail x) \<le> fresh)"
| "wf a e = True"

section \<open>The BUILD file parser (bazel-lsp/src/bazel/parser.rs)\<close>

datatype Value =
    Value_String string
  | Value_Number int
  | Value_Boolean bool
  | Value_List "Value list"
  | Value_Dict "string \<Rightarrow> Value option"
  | Value_TargetRef string
  | Value_Identifier string

record Location =
  line :: nat
  column :: nat

text \<open>The struct \<open>Rule\<close> of the parser (the generated enum has taken the name).\<close>

record Rule_struct =
  name :: string
  kind :: string
  attributes :: "string \<Rightarrow> Value option"
  location :: Location

record BuildFileParser =
  package_name :: string

definition BuildFileParser_new :: "string \<Rightarrow> BuildFileParser" where
  "BuildFileParser_new pkg = \<lparr>package_name = pkg\<rparr>"

text \<open>
  \<open>str::parse::<i64>\<close>: an optional sign, then at least one digit and nothing else; the
  value must fit 64 bits.  The empty text is an error of its own; a sign alone is an
  invalid digit.
\<close>

definition digit_value :: "char \<Rightarrow> int" where
  "digit_value c = int (of_char c) - 48"

definition parse_i64 :: "string \<Rightarrow> error + int" where
  "parse_i64 s =
     (let negative = (s \<noteq> [] \<and> hd s = CHR ''-'');
          digits = (if s \<noteq> [] \<and> (hd s = CHR ''-'' \<or> hd s = CHR ''+'') then tl s else s)
      in if s = [] then Inl (ParseInt ''cannot parse integer from empty string'')
         else if digits = [] \<or> \<not> list_all is_ascii_digit digits
         then Inl (ParseInt ''invalid digit found in string'')
         else let magnitude = foldl (\<lambda>acc c. 10 * acc + digit_value c) 0 digits;
                  v = (if negative then - magnitude else magnitude)
              in if v < - (2 ^ 63) then Inl (ParseInt ''number too small to fit in target type'')
                 else if 2 ^ 63 \<le> v then Inl (ParseInt ''number too large to fit in target type'')
                 else Inr v)"

text \<open>
  \<open>parse_value\<close>.  The slice \<open>s[1..s.len()-1]\<close> panics on a text shorter than two
  characters; \<open>unwrap\<close> on the first child of a \<open>list_item\<close> panics when there is none.
  \<open>parse_list_items\<close> is the loop over the children of a \<open>list\<close> pair.
\<close>

fun parse_value :: "Pair \<Rightarrow> error + Value"
  and parse_list_items :: "Pair list \<Rightarrow> error + Value list" where
  "parse_value (MkPair r s lc inner) =
     (case r of
        Rule_string \<Rightarrow>
          if length s < 2 then Inl (Panic ''slice index out of range'')
          else Inr (Value_String (take (length s - 2) (drop 1 s)))
      | Rule_number \<Rightarrow>
          (case parse_i64 s of Inl e \<Rightarrow> Inl e | Inr n \<Rightarrow> Inr (Value_Number n))
      | Rule_boolean \<Rightarrow> Inr (Value_Boolean (s = ''True''))
      | Rule_list \<Rightarrow>
          (case parse_list_items inner of Inl e \<Rightarrow> Inl e | Inr items \<Rightarrow> Inr (Value_List items))
      | Rule_target_ref \<Rightarrow> Inr (Value_TargetRef s)
      | Rule_identifier \<Rightarrow> Inr (Value_Identifier s)
      | _ \<Rightarrow> Inr (Value_String s))"
| "parse_list_items [] = Inr []"
| "parse_list_items (MkPair r s lc [] # items) =
     (if r = Rule_list_item then Inl (Panic ''called Option::unwrap() on a None value'')
      else parse_list_items items)"
| "parse_list_items (MkPair r s lc (first # others) # items) =
     (if r = Rule_list_item
      then (case parse_value first of
              Inl e \<Rightarrow> Inl e
            | Inr v \<Rightarrow>
                (case parse_list_items items of Inl e \<Rightarrow> Inl e | Inr vs \<Rightarrow> Inr (v # vs)))
      else parse_list_items items)"

definition is_bazel_rule :: "string \<Rightarrow> bool" where
  "is_bazel_rule n \<longleftrightarrow>
     n \<in> set [''cc_binary'', ''go_binary'', ''java_binary'', ''py_binary'', ''rust_binary'',
              ''cc_library'', ''go_library'', ''java_library'', ''py_library'', ''rust_library'',
              ''cc_test'', ''go_test'', ''java_test'', ''py_test'', ''rust_test'',
              ''scio_java_test'', ''scio_java_junit5_test'', ''scio_go_test'',
              ''proto_library'', ''java_proto_library'', ''go_proto_library'',
              ''filegroup'', ''genrule'', ''test_suite'', ''package'']"

text \<open>
  The loop of \<open>parse_statement\<close> over the arguments of a call: an argument with two
  children is a named one, an argument with one child is stored under \<open>name\<close>, any
  other is skipped.
\<close>

fun parse_arguments ::
  "Pair list \<Rightarrow> (string \<Rightarrow> Value option) \<Rightarrow> error + (string \<Rightarrow> Value option)" where
  "parse_arguments [] attrs = Inr attrs"
| "parse_arguments (arg # args) attrs =
     (case into_inner arg of
        [n, v] \<Rightarrow>
          (case parse_value v of
             Inl e \<Rightarrow> Inl e
           | Inr val \<Rightarrow> parse_arguments args (attrs(as_str n \<mapsto> val)))
      | [v] \<Rightarrow>
          (case parse_value v of
             Inl e \<Rightarrow> Inl e
           | Inr val \<Rightarrow> parse_arguments args (attrs(''name'' \<mapsto> val)))
      | _ \<Rightarrow> parse_arguments args attrs)"

definition parse_statement :: "BuildFileParser \<Rightarrow> Pair \<Rightarrow> error + Rule_struct option" where
  "parse_statement self pair =
     (case as_rule pair of
        Rule_function_call \<Rightarrow>
          (case into_inner pair of
             [] \<Rightarrow> Inl (Panic ''called Option::unwrap() on a None value'')
           | k # args \<Rightarrow>
               if \<not> is_bazel_rule (as_str k) then Inr None
               else (case parse_arguments args Map.empty of
                       Inl e \<Rightarrow> Inl e
                     | Inr attrs \<Rightarrow>
                         (case attrs ''name'' of
                            Some (Value_String n) \<Rightarrow>
                              Inr (Some \<lparr>name = ''//'' @ package_name self @ '':'' @ n,
                                         kind = as_str k,
                                         attributes = attrs,
                                         location = \<lparr>line = fst (line_col pair),
                                                     column = snd (line_col pair)\<rparr>\<rparr>)
                          | _ \<Rightarrow> Inr None)))
      | _ \<Rightarrow> Inr None)"

text \<open>The loop of \<open>parse\<close> over the top-level pairs, then \<open>parse\<close> itself.\<close>

fun parse_pairs ::
  "BuildFileParser \<Rightarrow> Pair list \<Rightarrow> Rule_struct list \<Rightarrow> error + Rule_struct list" where
  "parse_pairs self [] rules = Inr rules"
| "parse_pairs self (pair # pairs) rules =
     (case parse_statement self pair of
        Inl e \<Rightarrow> Inl e
      | Inr None \<Rightarrow> parse_pairs self pairs rules
      | Inr (Some rule) \<Rightarrow> parse_pairs self pairs (rules @ [rule]))"

definition parse :: "BuildFileParser \<Rightarrow> string \<Rightarrow> error + Rule_struct list" where
  "parse self content =
     (case BuildParser_parse Rule_file content of
        Inl e \<Rightarrow> Inl (Pest e)
      | Inr pairs \<Rightarrow> parse_pairs self pairs [])"

subsection \<open>Parse trees of some calls\<close>

text \<open>
  The pairs that the grammar gives for \<open>filegroup(srcs = [])\<close>, \<open>my_rule(name = x)\<close>,
  \<open>go_library(deps = [:base])\<close> and \<open>go_test(name = t)\<close>.
\<close>

definition call_without_name :: Pair where
  "call_without_name =
     MkPair Rule_function_call ''filegroup(srcs = [])'' (1, 1)
       [MkPair Rule_identifier ''filegroup'' (1, 1) [],
        MkPair Rule_argument ''srcs = []'' (1, 11)
          [MkPair Rule_identifier ''srcs'' (1, 11) [],
           MkPair Rule_value ''[]'' (1, 18) [MkPair Rule_list ''[]'' (1, 18) []]]]"

definition call_unknown_kind :: Pair where
  "call_unknown_kind =
     MkPair Rule_function_call ''my_rule(name = x)'' (1, 1)
       [MkPair Rule_identifier ''my_rule'' (1, 1) [],
        MkPair Rule_argument ''name = x'' (1, 9)
          [MkPair Rule_identifier ''name'' (1, 9) [],
           MkPair Rule_value ''x'' (1, 16) [MkPair Rule_identifier ''x'' (1, 16) []]]]"

definition call_deps_only :: Pair where
  "call_deps_only =
     MkPair Rule_function_call ''go_library(deps = [:base])'' (1, 1)
       [MkPair Rule_identifier ''go_library'' (1, 1) [],
        MkPair Rule_argument ''deps = [:base]'' (1, 12)
          [MkPair Rule_identifier ''deps'' (1, 12) [],
           MkPair Rule_value ''[:base]'' (1, 19)
             [MkPair Rule_list ''[:base]'' (1, 19)
                [MkPair Rule_list_item '':base'' (1, 20)
                   [MkPair Rule_target_ref '':base'' (1, 20) []]]]]]"

definition call_named :: Pair where
  "call_named =
     MkPair Rule_function_call ''go_test(name = t)'' (1, 1)
       [MkPair Rule_identifier ''go_test'' (1, 1) [],
        MkPair Rule_argument ''name = t'' (1, 9)
          [MkPair Rule_identifier ''name'' (1, 9) [],
           MkPair Rule_value ''t'' (1, 16) [MkPair Rule_identifier ''t'' (1, 16) []]]]"

section \<open>The parse cache (bazel-lsp/src/bazel/cache.rs)\<close>

text \<open>
  The hash function (\<open>blake3\<close>) is a parameter, with values in \<open>'h\<close>.  Time is in
  ticks of the monotonic clock: \<open>now\<close> is the reading taken by \<open>timestamp.elapsed()\<close>,
  \<open>later\<close> the one taken by \<open>Instant::now()\<close> once the content has been parsed.
\<close>

record 'h CachedParse =
  rules :: "Rule_struct list"
  hash :: 'h
  timestamp :: nat

record 'h ParseCache =
  cache :: "PathBuf \<Rightarrow> 'h CachedParse option"
  ttl :: nat

definition ParseCache_new :: "nat \<Rightarrow> 'h ParseCache" where
  "ParseCache_new t = \<lparr>cache = Map.empty, ttl = t\<rparr>"

definition get_or_parse ::
  "(string \<Rightarrow> 'h) \<Rightarrow> nat \<Rightarrow> nat \<Rightarrow> 'h ParseCache \<Rightarrow> PathBuf \<Rightarrow> string \<Rightarrow>
   (string \<Rightarrow> error + Rule_struct list) \<Rightarrow> (error + Rule_struct list) \<times> 'h ParseCache" where
  "get_or_parse blake3 now later self path content parse_fn =
     (let h = blake3 content;
          found = (case cache self path of
                     None \<Rightarrow> None
                   | Some cached \<Rightarrow>
                       if hash cached = h \<and> now - timestamp cached < ttl self
                       then Some (rules cached) else None)
      in case found of
           Some rs \<Rightarrow> (Inr rs, self)
         | None \<Rightarrow>
             (case parse_fn content of
                Inl e \<Rightarrow> (Inl e, self)
              | Inr rs \<Rightarrow>
                  (Inr rs,
                   self\<lparr>cache := (cache self)(path \<mapsto>
                           \<lparr>rules = rs, hash = h, timestamp = later\<rparr>)\<rparr>)))"

definition invalidate :: "'h ParseCache \<Rightarrow> PathBuf \<Rightarrow> 'h ParseCache" where
  "invalidate self path = self\<lparr>cache := (cache self)(path := None)\<rparr>"

text \<open>
  Every entry of the cache is the result of \<open>parse_fn\<close> on some content that has the
  hash stored with it.
\<close>

definition entries_parsed ::
  "(string \<Rightarrow> 'h) \<Rightarrow> (string \<Rightarrow> error + Rule_struct list) \<Rightarrow> 'h ParseCache \<Rightarrow> bool" where
  "entries_parsed blake3 parse_fn self \<longleftrightarrow>
     (\<forall>path cached. cache self path = Some cached \<longrightarrow>
        (\<exists>content. blake3 content = hash cached \<and> parse_fn content = Inr (rules cached)))"

text \<open>A parse function that rejects everything, and one that finds one rule in every file.\<close>

definition parse_failing :: "string \<Rightarrow> error + Rule_struct list" where
  "parse_failing content = Inl (Pest ParsingError)"

definition one_rule :: Rule_struct where
  "one_rule = \<lparr>name = ''//pkg:lib'', kind = ''go_library'', attributes = Map.empty,
               location = \<lparr>line = 1, column = 1\<rparr>\<rparr>"

definition parse_one :: "string \<Rightarrow> error + Rule_struct list" where
  "parse_one content = Inr [one_rule]"

text \<open>The cache after one rule has been stored for \<open>w/BUILD\<close> at time 8.\<close>

definition stored_once :: "string ParseCache" where
  "stored_once =
     \<lparr>cache = [[''w'', ''BUILD''] \<mapsto> \<lparr>rules = [one_rule], hash = ''x = 1'', timestamp = 8\<rparr>],
      ttl = 10\<rparr>"

section \<open>The build graph (bazel-lsp/src/bazel/build_graph.rs)\<close>

subsection \<open>Paths and URLs\<close>

text \<open>
  The components of a path text: the pieces between slashes, without the empty ones
  and without \<open>.\<close>; an absolute path starts with the root component \<open>/\<close>.
  \<open>parent\<close> drops the last component and is \<open>None\<close> for the empty path and for the
  root; \<open>join\<close> is \<open>Path::join\<close>: an absolute argument replaces the path, and a
  \<open>.\<close> at the start of the argument stays a component only when the path joined to
  is empty, since it then starts the result.
\<close>

fun split_on :: "char \<Rightarrow> string \<Rightarrow> string list" where
  "split_on c [] = [[]]"
| "split_on c (x # xs) =
     (if x = c then [] # split_on c xs
      else (case split_on c xs of [] \<Rightarrow> [[x]] | w # ws \<Rightarrow> (x # w) # ws))"

definition is_absolute :: "string \<Rightarrow> bool" where
  "is_absolute s \<longleftrightarrow> s \<noteq> [] \<and> hd s = CHR ''/''"

definition components :: "string \<Rightarrow> string list" where
  "components s = filter (\<lambda>w. w \<noteq> [] \<and> w \<noteq> ''.'') (split_on (CHR ''/'') s)"

definition parent :: "PathBuf \<Rightarrow> PathBuf option" where
  "parent p = (if p = [] \<or> p = [''/''] then None else Some (butlast p))"

definition join :: "PathBuf \<Rightarrow> string \<Rightarrow> PathBuf" where
  "join dir s =
     (if is_absolute s then ''/'' # components s
      else if dir = [] \<and> take 1 (split_on (CHR ''/'') s) = [''.''] then ''.'' # components s
      else dir @ components s)"

definition path_starts_with :: "PathBuf \<Rightarrow> PathBuf \<Rightarrow> bool" where
  "path_starts_with p base \<longleftrightarrow> take (length base) p = base"

datatype Url = FileUrl PathBuf | OtherUrl string

fun to_file_path :: "Url \<Rightarrow> PathBuf option" where
  "to_file_path (FileUrl p) = Some p"
| "to_file_path (OtherUrl u) = None"

subsection \<open>Targets and the graph\<close>

text \<open>
  The fields \<open>kind\<close>, \<open>location\<close> and \<open>attributes\<close> of \<open>BazelTarget\<close> and the field
  \<open>workspace_root\<close> of \<open>BuildGraph\<close> carry a prefix here, their plain names being
  fields of other records.
\<close>

record BazelTarget =
  label :: string
  target_kind :: string
  srcs :: "string list"
  deps :: "string list"
  target_location :: Location
  target_attributes :: "string \<Rightarrow> Value option"

record BuildGraph =
  targets :: "string \<Rightarrow> BazelTarget option"
  file_to_targets :: "PathBuf \<Rightarrow> string list option"
  graph_workspace_root :: PathBuf

definition BuildGraph_empty :: "PathBuf \<Rightarrow> BuildGraph" where
  "BuildGraph_empty root =
     \<lparr>targets = Map.empty, file_to_targets = Map.empty, graph_workspace_root = root\<rparr>"

text \<open>
  What the graph code reaches outside itself: the directory walk (the entries that are
  not errors, in the order of the walk), the file system, and \<open>parse_rule\<close>, which
  \<open>parse_build_file\<close> calls on every top-level pair and which the sources do not
  define.
\<close>

record Env =
  walkdir :: "PathBuf \<Rightarrow> PathBuf list"
  read_to_string :: "PathBuf \<Rightarrow> string + string"
  parse_rule :: "Pair \<Rightarrow> PathBuf \<Rightarrow> error + BazelTarget option"

text \<open>
  The inner loop of \<open>parse_build_file\<close>: for each source of the target, push the label
  onto the vector kept for the path of the source.
\<close>

fun push_srcs ::
  "PathBuf \<Rightarrow> string \<Rightarrow> string list \<Rightarrow> (PathBuf \<Rightarrow> string list option)
   \<Rightarrow> error + (PathBuf \<Rightarrow> string list option)" where
  "push_srcs path lbl [] m = Inr m"
| "push_srcs path lbl (src # following) m =
     (case parent path of
        None \<Rightarrow> Inl (Panic ''called Option::unwrap() on a None value'')
      | Some dir \<Rightarrow>
          push_srcs path lbl following
            (m(join dir src \<mapsto> (case m (join dir src) of None \<Rightarrow> [] | Some ls \<Rightarrow> ls) @ [lbl])))"

text \<open>The body of the outer loop, for one target: the file mappings, then the target.\<close>

definition index_target :: "PathBuf \<Rightarrow> BazelTarget \<Rightarrow> BuildGraph \<Rightarrow> error + BuildGraph" where
  "index_target path target self =
     (case push_srcs path (label target) (srcs target) (file_to_targets self) of
        Inl e \<Rightarrow> Inl e
      | Inr m \<Rightarrow>
          Inr (self\<lparr>file_to_targets := m, targets := (targets self)(label target \<mapsto> target)\<rparr>))"

text \<open>The outer loop over the top-level pairs, then \<open>parse_build_file\<close>.\<close>

fun index_pairs ::
  "Env \<Rightarrow> PathBuf \<Rightarrow> Pair list \<Rightarrow> BuildGraph \<Rightarrow> (error + unit) \<times> BuildGraph" where
  "index_pairs env path [] self = (Inr (), self)"
| "index_pairs env path (pair # pairs) self =
     (case parse_rule env pair path of
        Inl e \<Rightarrow> (Inl e, self)
      | Inr None \<Rightarrow> index_pairs env path pairs self
      | Inr (Some target) \<Rightarrow>
          (case index_target path target self of
             Inl e \<Rightarrow> (Inl e, self)
           | Inr self' \<Rightarrow> index_pairs env path pairs self'))"

definition parse_build_file ::
  "Env \<Rightarrow> BuildGraph \<Rightarrow> PathBuf \<Rightarrow> (error + unit) \<times> BuildGraph" where
  "parse_build_file env self path =
     (case read_to_string env path of
        Inl e \<Rightarrow> (Inl (Io e), self)
      | Inr content \<Rightarrow>
          (case BuildParser_parse Rule_file content of
             Inl e \<Rightarrow> (Inl (Pest e), self)
           | Inr pairs \<Rightarrow> index_pairs env path pairs self))"

text \<open>
  The maps of the graph are \<open>DashMap\<close>s, shared by the calls of \<open>parse_build_file\<close> that
  \<open>scan_workspace\<close> runs in parallel.  A call acts on them through two operations, each
  atomic on its map: \<open>entry(src_path).or_insert_with(Vec::new).push(label)\<close> on
  \<open>file_to_targets\<close> and \<open>insert(label, target)\<close> on \<open>targets\<close>.
\<close>

datatype step = Push PathBuf string | Insert string BazelTarget

fun apply_step :: "step \<Rightarrow> BuildGraph \<Rightarrow> BuildGraph" where
  "apply_step (Push src_path lbl) self =
     self\<lparr>file_to_targets := (file_to_targets self)
       (src_path \<mapsto> (case file_to_targets self src_path of None \<Rightarrow> [] | Some ls \<Rightarrow> ls) @ [lbl])\<rparr>"
| "apply_step (Insert lbl target) self =
     self\<lparr>targets := (targets self)(lbl \<mapsto> target)\<rparr>"

text \<open>
  The operations of one call of \<open>parse_build_file\<close>, in the order the call makes them:
  for each target that \<open>parse_rule\<close> yields, one push per source and then the insert,
  up to the first error.  What the call reads (the file, its parse, \<open>parse_rule\<close>) does
  not depend on the maps.  A path that passes the filter of the walk has a parent
  directory, so that \<open>unwrap\<close> does not panic in a scan.  That a call run alone is the
  run of these operations is \<open>parse_build_file_steps\<close> below.
\<close>

definition target_steps :: "PathBuf \<Rightarrow> BazelTarget \<Rightarrow> step list" where
  "target_steps dir target =
     map (\<lambda>src. Push (join dir src) (label target)) (srcs target)
     @ [Insert (label target) target]"

fun pair_steps :: "Env \<Rightarrow> PathBuf \<Rightarrow> PathBuf \<Rightarrow> Pair list \<Rightarrow> step list" where
  "pair_steps env path dir [] = []"
| "pair_steps env path dir (pair # pairs) =
     (case parse_rule env pair path of
        Inl e \<Rightarrow> []
      | Inr None \<Rightarrow> pair_steps env path dir pairs
      | Inr (Some target) \<Rightarrow> target_steps dir target @ pair_steps env path dir pairs)"

definition file_steps :: "Env \<Rightarrow> PathBuf \<Rightarrow> step list" where
  "file_steps env path =
     (case parent path of
        None \<Rightarrow> []
      | Some dir \<Rightarrow>
          (case read_to_string env path of
             Inl e \<Rightarrow> []
           | Inr content \<Rightarrow>
               (case BuildParser_parse Rule_file content of
                  Inl e \<Rightarrow> []
                | Inr pairs \<Rightarrow> pair_steps env path dir pairs)))"

text \<open>
  The parallel iterator runs the calls in an order of its own choosing: the
  operations of the calls are interleaved, those of one call staying in order.  A
  schedule names, step by step, the call that makes its next operation (a call that
  has none left, or that does not exist, is passed over); when the schedule is used
  up, the calls that are not finished run to their end one after the other.  The empty
  schedule is the run of the calls one after the other in the order of the walk.
\<close>

fun interleave :: "nat list \<Rightarrow> 'a list list \<Rightarrow> 'a list" where
  "interleave [] tasks = concat tasks"
| "interleave (i # sched) tasks =
     (if i < length tasks
      then (case tasks ! i of
              [] \<Rightarrow> interleave sched tasks
            | x # following \<Rightarrow> x # interleave sched (tasks[i := following]))
      else interleave sched tasks)"

text \<open>
  An interleaving of the calls: each operation is the next one of some call.
\<close>

fun is_interleaving :: "'a list \<Rightarrow> 'a list list \<Rightarrow> bool" where
  "is_interleaving [] tasks = (concat tasks = [])"
| "is_interleaving (x # xs) tasks =
     list_ex (\<lambda>i. case tasks ! i of
                     [] \<Rightarrow> False
                   | y # following \<Rightarrow> y = x \<and> is_interleaving xs (tasks[i := following]))
       [0..<length tasks]"

text \<open>
  \<open>scan_workspace\<close>, under a schedule.  \<open>collect\<close> keeps the results in the order of
  the files whatever the schedule.  The value returned is always \<open>Ok(())\<close>; the third
  component lists the errors handed to \<open>tracing::warn!\<close>, one call per failed file.
\<close>

definition is_build_file :: "PathBuf \<Rightarrow> bool" where
  "is_build_file e \<longleftrightarrow>
     e \<noteq> [] \<and> (last e = ''BUILD'' \<or> last e = ''BUILD.bazel'')
     \<and> \<not> path_starts_with e [''bazel-'']"

fun warnings :: "(error + unit) list \<Rightarrow> error list" where
  "warnings [] = []"
| "warnings (Inl e # results) = e # warnings results"
| "warnings (Inr u # results) = warnings results"

definition scan_steps :: "Env \<Rightarrow> PathBuf \<Rightarrow> nat list \<Rightarrow> step list" where
  "scan_steps env root sched =
     interleave sched (map (file_steps env) (filter is_build_file (walkdir env root)))"

definition scan_workspace ::
  "Env \<Rightarrow> BuildGraph \<Rightarrow> PathBuf \<Rightarrow> nat list \<Rightarrow> (error + unit) \<times> BuildGraph \<times> error list" where
  "scan_workspace env self root sched =
     (let build_files = filter is_build_file (walkdir env root);
          results = map (\<lambda>path. fst (parse_build_file env self path)) build_files
      in (Inr (), fold apply_step (scan_steps env root sched) self, warnings results))"

definition get_target_for_file :: "BuildGraph \<Rightarrow> Url \<Rightarrow> BazelTarget option" where
  "get_target_for_file self file =
     (case to_file_path file of
        None \<Rightarrow> None
      | Some path \<Rightarrow>
          (case file_to_targets self path of
             None \<Rightarrow> None
           | Some ts \<Rightarrow> (case ts of [] \<Rightarrow> None | lbl # later \<Rightarrow> targets self lbl)))"

subsection \<open>What a scan indexes\<close>

text \<open>
  Notions the properties are stated with.  \<open>labels_at\<close> reads the vector kept for a path
  (empty when there is none); a target declared in the BUILD file \<open>build_path\<close> claims
  the paths its sources resolve to.
\<close>

definition labels_at :: "(PathBuf \<Rightarrow> string list option) \<Rightarrow> PathBuf \<Rightarrow> string list" where
  "labels_at m p = (case m p of None \<Rightarrow> [] | Some ls \<Rightarrow> ls)"

definition claims :: "PathBuf \<Rightarrow> BazelTarget \<Rightarrow> PathBuf \<Rightarrow> bool" where
  "claims build_path target p \<longleftrightarrow>
     (case parent build_path of
        None \<Rightarrow> False
      | Some dir \<Rightarrow> p \<in> set (map (join dir) (srcs target)))"

text \<open>
  The targets that \<open>parse_build_file\<close> indexes for a file, in the order of the pairs
  (up to the first error of \<open>parse_rule\<close>), and those of all the files of a scan,
  listed in the order of the walk.
\<close>

fun declared :: "Env \<Rightarrow> PathBuf \<Rightarrow> Pair list \<Rightarrow> BazelTarget list" where
  "declared env path [] = []"
| "declared env path (pair # pairs) =
     (case parse_rule env pair path of
        Inl e \<Rightarrow> []
      | Inr None \<Rightarrow> declared env path pairs
      | Inr (Some target) \<Rightarrow> target # declared env path pairs)"

definition file_declared :: "Env \<Rightarrow> PathBuf \<Rightarrow> BazelTarget list" where
  "file_declared env path =
     (case read_to_string env path of
        Inl e \<Rightarrow> []
      | Inr content \<Rightarrow>
          (case BuildParser_parse Rule_file content of
             Inl e \<Rightarrow> []
           | Inr pairs \<Rightarrow> declared env path pairs))"

definition scan_declared :: "Env \<Rightarrow> PathBuf list \<Rightarrow> (PathBuf \<times> BazelTarget) list" where
  "scan_declared env paths = concat (map (\<lambda>f. map (\<lambda>t. (f, t)) (file_declared env f)) paths)"

definition scanned :: "Env \<Rightarrow> PathBuf \<Rightarrow> (PathBuf \<times> BazelTarget) list" where
  "scanned env root = scan_declared env (filter is_build_file (walkdir env root))"

text \<open>The result of \<open>parse_build_file\<close> for a file, which does not depend on the graph.\<close>

fun rules_outcome :: "Env \<Rightarrow> PathBuf \<Rightarrow> Pair list \<Rightarrow> error + unit" where
  "rules_outcome env path [] = Inr ()"
| "rules_outcome env path (pair # pairs) =
     (case parse_rule env pair path of Inl e \<Rightarrow> Inl e | Inr t \<Rightarrow> rules_outcome env path pairs)"

definition file_outcome :: "Env \<Rightarrow> PathBuf \<Rightarrow> error + unit" where
  "file_outcome env path =
     (case read_to_string env path of
        Inl e \<Rightarrow> Inl (Io e)
      | Inr content \<Rightarrow>
          (case BuildParser_parse Rule_file content of
             Inl e \<Rightarrow> Inl (Pest e)
           | Inr pairs \<Rightarrow> rules_outcome env path pairs))"

text \<open>
  A target is indexed when its label is a key of \<open>targets\<close> and stands in the vector of
  every path its sources resolve to.
\<close>

definition indexed :: "BuildGraph \<Rightarrow> PathBuf \<Rightarrow> BazelTarget \<Rightarrow> bool" where
  "indexed g f t \<longleftrightarrow>
     (case targets g (label t) of None \<Rightarrow> False | Some t' \<Rightarrow> label t' = label t)
     \<and> (case parent f of
          None \<Rightarrow> True
        | Some dir \<Rightarrow>
            (\<forall>s \<in> set (srcs t). label t \<in> set (labels_at (file_to_targets g) (join dir s))))"

text \<open>The labels that a run of operations pushes onto the vector of a path, in order.\<close>

fun pushes_at :: "PathBuf \<Rightarrow> step list \<Rightarrow> string list" where
  "pushes_at p [] = []"
| "pushes_at p (Push q lbl # steps) = (if q = p then lbl # pushes_at p steps else pushes_at p steps)"
| "pushes_at p (Insert lbl target # steps) = pushes_at p steps"

subsection \<open>A small workspace\<close>

text \<open>
  Two targets of the package \<open>pkg\<close> that both list \<open>a.go\<close>, the parse trees of the
  files \<open>go_library(name = lib)\<close> and \<open>go_test(name = lib_test)\<close>, and three file
  systems under \<open>/w\<close>.  Their \<open>parse_rule\<close> stands for the function the sources do not
  define.  In \<open>world_two\<close> the package has two BUILD files, \<open>pkg/BUILD\<close> with the test
  and \<open>pkg/BUILD.bazel\<close> with the library.  In \<open>world_a\<close> the file \<open>lib/BUILD\<close> is
  cut short and \<open>pkg/BUILD\<close> is well formed; in \<open>world_b\<close> it is the other way round.
\<close>

definition lib_target :: BazelTarget where
  "lib_target =
     \<lparr>label = ''//pkg:lib'', target_kind = ''go_library'', srcs = [''a.go''], deps = [],
      target_location = \<lparr>line = 1, column = 1\<rparr>, target_attributes = Map.empty\<rparr>"

definition test_target :: BazelTarget where
  "test_target =
     \<lparr>label = ''//pkg:lib_test'', target_kind = ''go_test'', srcs = [''a.go'', ''a_test.go''],
      deps = ['':lib''], target_location = \<lparr>line = 1, column = 1\<rparr>,
      target_attributes = Map.empty\<rparr>"

definition pkg_build :: PathBuf where
  "pkg_build = [''/'', ''w'', ''pkg'', ''BUILD'']"

definition pkg_bazel :: PathBuf where
  "pkg_bazel = [''/'', ''w'', ''pkg'', ''BUILD.bazel'']"

definition a_go :: PathBuf where
  "a_go = [''/'', ''w'', ''pkg'', ''a.go'']"

definition file_pair_lib :: Pair where
  "file_pair_lib =
     MkPair Rule_file ''go_library(name = lib)'' (1, 1)
       [MkPair Rule_statement ''go_library(name = lib)'' (1, 1)
          [MkPair Rule_function_call ''go_library(name = lib)'' (1, 1)
             [MkPair Rule_identifier ''go_library'' (1, 1) [],
              MkPair Rule_argument ''name = lib'' (1, 12)
                [MkPair Rule_identifier ''name'' (1, 12) [],
                 MkPair Rule_value ''lib'' (1, 19) [MkPair Rule_identifier ''lib'' (1, 19) []]]]],
        MkPair Rule_EOI [] (1, 23) []]"

definition file_pair_test :: Pair where
  "file_pair_test =
     MkPair Rule_file ''go_test(name = lib_test)'' (1, 1)
       [MkPair Rule_statement ''go_test(name = lib_test)'' (1, 1)
          [MkPair Rule_function_call ''go_test(name = lib_test)'' (1, 1)
             [MkPair Rule_identifier ''go_test'' (1, 1) [],
              MkPair Rule_argument ''name = lib_test'' (1, 9)
                [MkPair Rule_identifier ''name'' (1, 9) [],
                 MkPair Rule_value ''lib_test'' (1, 16)
                   [MkPair Rule_identifier ''lib_test'' (1, 16) []]]]],
        MkPair Rule_EOI [] (1, 25) []]"

definition world_two :: Env where
  "world_two =
     \<lparr>walkdir = (\<lambda>root. [[''/'', ''w'', ''README.md''], pkg_build, pkg_bazel]),
      read_to_string = (\<lambda>path. if path = pkg_build then Inr ''go_test(name = lib_test)''
                               else Inr ''go_library(name = lib)''),
      parse_rule = (\<lambda>pair path. if pair = file_pair_test then Inr (Some test_target)
                                 else if pair = file_pair_lib then Inr (Some lib_target)
                                 else Inr None)\<rparr>"

definition lib_build :: PathBuf where
  "lib_build = [''/'', ''w'', ''lib'', ''BUILD'']"

definition world_a :: Env where
  "world_a =
     \<lparr>walkdir = (\<lambda>root. [lib_build, pkg_build]),
      read_to_string = (\<lambda>path. if path = pkg_build then Inr ''go_library(name = lib)''
                               else Inr ''go_library(''),
      parse_rule = (\<lambda>pair path. if pair = file_pair_lib then Inr (Some lib_target) else Inr None)\<rparr>"

definition world_b :: Env where
  "world_b =
     \<lparr>walkdir = (\<lambda>root. [lib_build, pkg_build]),
      read_to_string = (\<lambda>path. if path = pkg_build then Inr ''go_library(''
                               else Inr ''go_library(name = lib)''),
      parse_rule = (\<lambda>pair path. Inr None)\<rparr>"

section \<open>The build-tool client (bazel-lsp/src/bazel/client.rs)\<close>

subsection \<open>The LRU cache of the \<open>lru\<close> crate\<close>

text \<open>
  The entries are kept most recently used first.  \<open>get\<close> moves a hit to the front,
  \<open>put\<close> replaces an existing key or inserts a new one, evicting the least recently
  used entry (the last one) when the cache is full.
\<close>

record ('k, 'v) LruCache =
  cap :: nat
  entries :: "('k \<times> 'v) list"

definition LruCache_new :: "nat \<Rightarrow> ('k, 'v) LruCache" where
  "LruCache_new n = \<lparr>cap = n, entries = []\<rparr>"

definition lru_get :: "'k \<Rightarrow> ('k, 'v) LruCache \<Rightarrow> 'v option \<times> ('k, 'v) LruCache" where
  "lru_get k c =
     (case map_of (entries c) k of
        None \<Rightarrow> (None, c)
      | Some v \<Rightarrow> (Some v, c\<lparr>entries := (k, v) # filter (\<lambda>e. fst e \<noteq> k) (entries c)\<rparr>))"

definition lru_put :: "'k \<Rightarrow> 'v \<Rightarrow> ('k, 'v) LruCache \<Rightarrow> ('k, 'v) LruCache" where
  "lru_put k v c =
     (if map_of (entries c) k \<noteq> None
      then c\<lparr>entries := (k, v) # filter (\<lambda>e. fst e \<noteq> k) (entries c)\<rparr>
      else if cap c \<le> length (entries c)
      then c\<lparr>entries := (k, v) # butlast (entries c)\<rparr>
      else c\<lparr>entries := (k, v) # entries c\<rparr>)"

subsection \<open>The subprocess boundary\<close>

text \<open>
  \<open>Output\<close> is what \<open>Command::output()\<close> gives back once the child has exited.  The
  external tool and the decoder \<open>parse_query_output\<close> (called by \<open>query\<close>, not defined in
  the sources) are collaborators: \<open>run\<close> is the behaviour of the tool at the moment of the
  call (program, working directory, arguments), with \<open>Inl\<close> when the process cannot be
  spawned.  A later call may face a different \<open>Sys\<close>: time has passed, files have changed.
  \<open>stderr\<close> is the text \<open>String::from_utf8_lossy\<close> reads from the bytes.
\<close>

record Output =
  success :: bool
  stdout :: string
  stderr :: string

record 'r Sys =
  run :: "PathBuf \<Rightarrow> PathBuf \<Rightarrow> string list \<Rightarrow> string + Output"
  parse_query_output :: "string \<Rightarrow> error + 'r"

record 'r BazelClient =
  workspace_root :: PathBuf
  bazel_path :: PathBuf
  query_cache :: "(string, 'r) LruCache"

text \<open>\<open>BazelClient::new\<close>: \<open>which::which("bazel")?\<close>, then an empty cache of capacity 1000.\<close>

definition BazelClient_new :: "(string \<Rightarrow> string + PathBuf) \<Rightarrow> PathBuf \<Rightarrow> error + 'r BazelClient" where
  "BazelClient_new which root =
     (case which ''bazel'' of
        Inl e \<Rightarrow> Inl (Io e)
      | Inr p \<Rightarrow> Inr \<lparr>workspace_root = root, bazel_path = p, query_cache = LruCache_new 1000\<rparr>)"

definition query_args :: "string \<Rightarrow> string list" where
  "query_args q =
     [''query'', q, ''--output=proto'',
      ''--proto:output_rule_attrs=srcs,deps,visibility,testonly'']"

text \<open>
  \<open>BazelClient::query\<close>.  The result is the value returned, the client afterwards and the
  argument lists of the subprocesses this call spawned (none or one).
\<close>

definition query ::
  "'r Sys \<Rightarrow> 'r BazelClient \<Rightarrow> string \<Rightarrow> (error + 'r) \<times> 'r BazelClient \<times> string list list" where
  "query sys c q =
     (case lru_get q (query_cache c) of
        (Some result, cache') \<Rightarrow> (Inr result, c\<lparr>query_cache := cache'\<rparr>, [])
      | (None, cache') \<Rightarrow>
          (case run sys (bazel_path c) (workspace_root c) (query_args q) of
             Inl e \<Rightarrow> (Inl (Io e), c\<lparr>query_cache := cache'\<rparr>, [query_args q])
           | Inr output \<Rightarrow>
               if \<not> success output
               then (Inl (Bail (''Bazel query failed: '' @ stderr output)),
                     c\<lparr>query_cache := cache'\<rparr>, [query_args q])
               else (case parse_query_output sys (stdout output) of
                       Inl e \<Rightarrow> (Inl e, c\<lparr>query_cache := cache'\<rparr>, [query_args q])
                     | Inr result \<Rightarrow>
                         (Inr result, c\<lparr>query_cache := lru_put q result cache'\<rparr>,
                          [query_args q]))))"

text \<open>
  A concrete run: the tool answers \<open>v1\<close> before a file of the queried package changes
  and would answer \<open>v2\<close> after it.
\<close>

definition tool_before :: "string Sys" where
  "tool_before =
     \<lparr>run = (\<lambda>prog cwd args. Inr \<lparr>success = True, stdout = ''v1'', stderr = ''''\<rparr>),
      parse_query_output = (\<lambda>bytes. Inr bytes)\<rparr>"

definition tool_after :: "string Sys" where
  "tool_after =
     \<lparr>run = (\<lambda>prog cwd args. Inr \<lparr>success = True, stdout = ''v2'', stderr = ''''\<rparr>),
      parse_query_output = (\<lambda>bytes. Inr bytes)\<rparr>"

definition tool_failing :: "string Sys" where
  "tool_failing =
     \<lparr>run = (\<lambda>prog cwd args. Inr \<lparr>success = False, stdout = '''', stderr = ''ERROR: no such package''\<rparr>),
      parse_query_output = (\<lambda>bytes. Inr bytes)\<rparr>"

definition fresh_client :: "string BazelClient" where
  "fresh_client =
     \<lparr>workspace_root = [''/'', ''w''], bazel_path = [''/'', ''usr'', ''bin'', ''bazel''],
      query_cache = LruCache_new 1000\<rparr>"

section \<open>Properties of the build-tool client\<close>

lemma lru_get_miss:
  "map_of (entries c) k = None \<Longrightarrow> lru_get k c = (None, c)"
  by (simp add: lru_get_def)

lemma lru_get_hit:
  "map_of (entries c) k = Some v \<Longrightarrow>
   lru_get k c = (Some v, c\<lparr>entries := (k, v) # filter (\<lambda>e. fst e \<noteq> k) (entries c)\<rparr>)"
  by (simp add: lru_get_def)

lemma lru_get_keeps:
  "lru_get k c = (Some v, c') \<Longrightarrow> map_of (entries c') k = Some v"
  by (auto simp: lru_get_def split: option.splits)

lemma lru_put_lookup: "map_of (entries (lru_put k v c)) k = Some v"
  by (simp add: lru_put_def)

lemma query_hit:
  assumes "map_of (entries (query_cache c)) q = Some r"
  shows "fst (query sys c q) = Inr r" and "snd (snd (query sys c q)) = []"
  using assms by (simp_all add: query_def lru_get_hit)

lemma query_miss_spawns:
  assumes "map_of (entries (query_cache c)) q = None"
  shows "snd (snd (query sys c q)) = [query_args q]"
  using assms by (simp add: query_def lru_get_miss split: sum.splits)

lemma query_success_cached:
  assumes "query sys c q = (Inr r, c', sp)"
  shows "map_of (entries (query_cache c')) q = Some r"
proof (cases "lru_get q (query_cache c)")
  case (Pair found cache')
  show ?thesis
  proof (cases found)
    case None
    with Pair assms show ?thesis
      by (auto simp: query_def lru_put_lookup split: sum.splits if_splits)
  next
    case (Some v)
    with Pair assms have "v = r" and "c' = c\<lparr>query_cache := cache'\<rparr>"
      by (auto simp: query_def)
    with Pair Some show ?thesis
      by (simp add: lru_get_keeps)
  qed
qed

lemma query_spawns_at_most_once: "length (snd (snd (query sys c q))) \<le> 1"
  by (simp add: query_def split: prod.splits option.splits sum.splits)

text \<open>
  C4.  When the call reaches the subprocess and the subprocess exits non-zero, the call
  returns the error built from the tool's own stderr text, never a result; the cache is
  left as it was, so the next call for the same expression spawns the subprocess again,
  whatever the tool does then.
\<close>

theorem query_failure_surfaced_and_not_cached:
  assumes "fst (lru_get q (query_cache c)) = None"
    and "run sys (bazel_path c) (workspace_root c) (query_args q) = Inr output"
    and "\<not> success output"
    and "query sys c q = (res, c', spawned)"
  shows "res = Inl (Bail (''Bazel query failed: '' @ stderr output))
       \<and> (\<forall>r. res \<noteq> Inr r)
       \<and> spawned = [query_args q]
       \<and> query_cache c' = query_cache c
       \<and> (\<forall>sys'. snd (snd (query sys' c' q)) = [query_args q])"
proof -
  from assms(1) have miss: "map_of (entries (query_cache c)) q = None"
    by (simp add: lru_get_def split: option.splits)
  with assms(2,3,4) have r: "res = Inl (Bail (''Bazel query failed: '' @ stderr output))"
    and c': "c' = c\<lparr>query_cache := query_cache c\<rparr>" and s: "spawned = [query_args q]"
    by (simp_all add: query_def lru_get_miss)
  from c' miss have "map_of (entries (query_cache c')) q = None" by simp
  then have "\<forall>sys'. snd (snd (query sys' c' q)) = [query_args q]"
    by (simp add: query_miss_spawns)
  with r c' s show ?thesis by simp
qed

theorem query_failure_surfaced_and_not_cached_witness:
  "query tool_failing fresh_client ''//pkg:all''
     = (Inl (Bail ''Bazel query failed: ERROR: no such package''), fresh_client,
        [query_args ''//pkg:all''])
   \<and> snd (snd (query tool_before fresh_client ''//pkg:all'')) = [query_args ''//pkg:all'']"
proof -
  have miss: "fst (lru_get ''//pkg:all'' (query_cache fresh_client)) = None"
    by (simp add: fresh_client_def LruCache_new_def lru_get_def)
  have ran: "run tool_failing (bazel_path fresh_client) (workspace_root fresh_client)
               (query_args ''//pkg:all'')
             = Inr \<lparr>success = False, stdout = '''', stderr = ''ERROR: no such package''\<rparr>"
    by (simp add: tool_failing_def)
  have q: "query tool_failing fresh_client ''//pkg:all''
     = (Inl (Bail ''Bazel query failed: ERROR: no such package''), fresh_client,
        [query_args ''//pkg:all''])"
    by (simp add: query_def tool_failing_def fresh_client_def LruCache_new_def lru_get_def)
  from query_failure_surfaced_and_not_cached [OF miss ran _ q]
  show ?thesis using q by simp
qed

text \<open>
  C2, as the code has it.  Once a call for \<open>q\<close> has returned a result, the next call for
  \<open>q\<close> returns that same result from the cache and spawns nothing, whatever the tool
  would answer by then: no time-to-live is consulted and no file change reaches the
  cache.  The two calls together spawn at most one subprocess.
\<close>

theorem query_repeat_served_from_cache:
  assumes "query sys c q = (Inr r, c', spawned)"
  shows "\<forall>sys'. fst (query sys' c' q) = Inr r \<and> snd (snd (query sys' c' q)) = []
           \<and> length (spawned @ snd (snd (query sys' c' q))) \<le> 1"
proof -
  from assms have "map_of (entries (query_cache c')) q = Some r"
    by (rule query_success_cached)
  moreover have "length spawned \<le> 1"
    using query_spawns_at_most_once [of sys c q] assms by simp
  ultimately show ?thesis
    by (simp add: query_hit)
qed

theorem query_repeat_served_from_cache_witness:
  "fst (query tool_after (fst (snd (query tool_before fresh_client ''//pkg:all''))) ''//pkg:all'')
     = Inr ''v1''"
proof -
  obtain c' sp where q: "query tool_before fresh_client ''//pkg:all'' = (Inr ''v1'', c', sp)"
    by (simp add: query_def tool_before_def fresh_client_def LruCache_new_def lru_get_def)
  from query_repeat_served_from_cache [OF q] show ?thesis
    using q by simp
qed

text \<open>
  C2, as the specification states it, fails: after the package changed, the tool would
  answer \<open>v2\<close>, yet the second call spawns no subprocess and returns the stale \<open>v1\<close>.
\<close>

theorem query_file_change_counterexample:
  "snd (snd (query tool_after (fst (snd (query tool_before fresh_client ''//pkg:all'')))
                ''//pkg:all'')) = []
   \<and> fst (query tool_after (fst (snd (query tool_before fresh_client ''//pkg:all'')))
                ''//pkg:all'') = Inr ''v1''
   \<and> fst (query tool_after fresh_client ''//pkg:all'') = Inr ''v2''"
  by (simp add: query_def tool_before_def tool_after_def fresh_client_def LruCache_new_def
      lru_get_def lru_put_def)

section \<open>Properties of the grammar interpreter\<close>

text \<open>
  The bound on the depth never changes an answer: a match or a failure found within
  some depth is found, the same, within any larger one.
\<close>

lemma pmatch_Suc:
  "pmatch n atomic e p = r \<Longrightarrow> r \<noteq> Timeout \<Longrightarrow> pmatch (Suc n) atomic e p = r"
proof (induction n arbitrary: atomic e p r)
  case 0
  then show ?case by simp
next
  case (Suc n)
  note IH = Suc.IH
  have step: "\<And>a e p. pmatch n a e p \<noteq> Timeout \<Longrightarrow> pmatch (Suc n) a e p = pmatch n a e p"
    using IH by blast
  show ?case
  proof (cases e)
    case (Call rl)
    obtain ty body where g: "grammar rl = (ty, body)" by (cases "grammar rl")
    show ?thesis
    proof (cases ty)
      case Normal
      with Suc.prems Call g have "pmatch n atomic body p \<noteq> Timeout"
        by (auto split: outcome.splits)
      from step [OF this] Suc.prems Call g Normal show ?thesis by simp
    next
      case Silent
      with Suc.prems Call g
      have "pmatch n (atomic \<or> rl = Rule_WHITESPACE \<or> rl = Rule_COMMENT) body p \<noteq> Timeout"
        by auto
      from step [OF this] Suc.prems Call g Silent show ?thesis by simp
    next
      case Atomic
      with Suc.prems Call g have "pmatch n True body p \<noteq> Timeout"
        by (auto split: outcome.splits)
      from step [OF this] Suc.prems Call g Atomic show ?thesis by simp
    qed
  next
    case (Seq a b)
    from Suc.prems Seq have a: "pmatch n atomic a p \<noteq> Timeout"
      by (auto split: outcome.splits)
    show ?thesis
    proof (cases "pmatch n atomic a p")
      case NoMatch
      with step [OF a] Suc.prems Seq show ?thesis by simp
    next
      case Timeout
      with a show ?thesis by simp
    next
      case (Matched x)
      obtain ps q where x: "x = (ps, q)" by (cases x)
      from Suc.prems Seq Matched x have s: "pmatch n atomic Skip q \<noteq> Timeout"
        by (auto split: outcome.splits)
      show ?thesis
      proof (cases "pmatch n atomic Skip q")
        case NoMatch
        with step [OF a] step [OF s] Suc.prems Seq Matched x show ?thesis by simp
      next
        case Timeout
        with s show ?thesis by simp
      next
        case m2: (Matched y)
        obtain ws q' where y: "y = (ws, q')" by (cases y)
        from Suc.prems Seq Matched x m2 y have b: "pmatch n atomic b q' \<noteq> Timeout"
          by (auto split: outcome.splits)
        from step [OF a] step [OF s] step [OF b] Suc.prems Seq Matched x m2 y
        show ?thesis by simp
      qed
    qed
  next
    case (Choice a b)
    from Suc.prems Choice have a: "pmatch n atomic a p \<noteq> Timeout"
      by (auto split: outcome.splits)
    show ?thesis
    proof (cases "pmatch n atomic a p")
      case NoMatch
      with Suc.prems Choice have b: "pmatch n atomic b p \<noteq> Timeout" by auto
      from step [OF a] step [OF b] NoMatch Suc.prems Choice show ?thesis by simp
    next
      case Timeout
      with a show ?thesis by simp
    next
      case (Matched x)
      with step [OF a] have "pmatch (Suc n) atomic a p = Matched x" by simp
      then have "pmatch (Suc (Suc n)) atomic (Choice a b) p = Matched x" by simp
      moreover from Suc.prems Choice Matched have "r = Matched x" by simp
      ultimately show ?thesis using Choice by simp
    qed
  next
    case (Opt a)
    from Suc.prems Opt have a: "pmatch n atomic a p \<noteq> Timeout"
      by (auto split: outcome.splits)
    from step [OF a] Suc.prems Opt show ?thesis by simp
  next
    case (Rep a)
    from Suc.prems Rep have a: "pmatch n atomic a p \<noteq> Timeout"
      by (auto split: outcome.splits)
    show ?thesis
    proof (cases "pmatch n atomic a p")
      case NoMatch
      with step [OF a] Suc.prems Rep show ?thesis by simp
    next
      case Timeout
      with a show ?thesis by simp
    next
      case (Matched x)
      obtain ps q where x: "x = (ps, q)" by (cases x)
      from Suc.prems Rep Matched x have t: "pmatch n atomic (RepTail a) q \<noteq> Timeout"
        by (auto split: outcome.splits)
      from step [OF a] step [OF t] Suc.prems Rep Matched x show ?thesis by simp
    qed
  next
    case (Not a)
    from Suc.prems Not have a: "pmatch n atomic a p \<noteq> Timeout"
      by (auto split: outcome.splits)
    from step [OF a] Suc.prems Not show ?thesis by simp
  next
    case Skip
    show ?thesis
    proof (cases atomic)
      case True
      with Suc.prems Skip show ?thesis by simp
    next
      case False
      with Suc.prems Skip have a: "pmatch n True skip_expr p \<noteq> Timeout"
        by (auto split: outcome.splits)
      from step [OF a] Suc.prems Skip False show ?thesis by simp
    qed
  next
    case (RepTail a)
    from Suc.prems RepTail have s: "pmatch n atomic Skip p \<noteq> Timeout"
      by (auto split: outcome.splits)
    show ?thesis
    proof (cases "pmatch n atomic Skip p")
      case NoMatch
      with step [OF s] Suc.prems RepTail show ?thesis by simp
    next
      case Timeout
      with s show ?thesis by simp
    next
      case (Matched x)
      obtain ws q where x: "x = (ws, q)" by (cases x)
      from Suc.prems RepTail Matched x have a: "pmatch n atomic a q \<noteq> Timeout"
        by (auto split: outcome.splits)
      show ?thesis
      proof (cases "pmatch n atomic a q")
        case NoMatch
        with step [OF s] step [OF a] Suc.prems RepTail Matched x show ?thesis by simp
      next
        case Timeout
        with a show ?thesis by simp
      next
        case m2: (Matched y)
        obtain ps q' where y: "y = (ps, q')" by (cases y)
        from Suc.prems RepTail Matched x m2 y
        have t: "pmatch n atomic (RepTail a) q' \<noteq> Timeout"
          by (auto split: outcome.splits)
        from step [OF s] step [OF a] step [OF t] Suc.prems RepTail Matched x m2 y
        show ?thesis by simp
      qed
    qed
  qed (use Suc.prems in simp_all)
qed

lemma pmatch_more_fuel:
  assumes "pmatch n atomic e p = r" and "r \<noteq> Timeout" and "n \<le> m"
  shows "pmatch m atomic e p = r"
  using assms(3,1,2) by (induction rule: dec_induct) (simp_all add: pmatch_Suc)


text \<open>
  The grammar satisfies what the bound rests on: every rule but \<open>file\<close> and \<open>EOI\<close>
  consumes, the body of every rule stays within its rank and is well formed, and so is
  the implicit whitespace.
\<close>

lemma body_consumes: "r \<noteq> Rule_file \<Longrightarrow> r \<noteq> Rule_EOI \<Longrightarrow> consumes (snd (grammar r))"
  by (cases r) (simp_all add: Plus_def)

lemma body_need: "need (mode a r) (snd (grammar r)) \<le> rank r"
  by (cases r; cases a) (simp_all add: mode_def Plus_def skip_rank_def)

lemma body_wf: "wf (mode a r) (snd (grammar r))"
  by (cases r; cases a) (simp_all add: mode_def Plus_def skip_rank_def fresh_def)

lemma skip_need: "need True skip_expr \<le> skip_rank"
  by (simp add: skip_expr_def skip_rank_def)

lemma skip_wf: "wf True skip_expr"
  by (simp add: skip_expr_def fresh_def)

lemma need_pos: "0 < need a e"
  by (cases e) simp_all

lemma need_Skip_fresh: "need a Skip \<le> fresh"
  by (simp add: skip_rank_def fresh_def)


text \<open>A match never moves back, and moves forward when the expression consumes.\<close>

lemma advance1_rest: "rest p = c # cs \<Longrightarrow> rest (advance1 c p) = cs"
  by (cases p) simp

lemma advance_rest: "rest (advance k p) = drop k (rest p)"
proof (induction k arbitrary: p)
  case 0
  then show ?case by simp
next
  case (Suc k)
  show ?case
  proof (cases "rest p")
    case Nil
    then show ?thesis by simp
  next
    case (Cons c cs)
    with Suc [of "advance1 c p"] show ?thesis by (simp add: advance1_rest)
  qed
qed

lemma starts_with_length: "starts_with r s \<Longrightarrow> length s \<le> length r"
  by (induction r s rule: starts_with.induct) simp_all

lemma one_char_rest:
  "one_char ok p = Matched (ps, q) \<Longrightarrow> length (rest q) < length (rest p)"
  by (auto simp: one_char_def advance1_rest split: list.splits if_splits)

lemma pmatch_rest:
  "pmatch n a e p = Matched (ps, q)
   \<Longrightarrow> length (rest q) \<le> length (rest p) \<and> (consumes e \<longrightarrow> length (rest q) < length (rest p))"
proof (induction n arbitrary: a e p ps q)
  case 0
  then show ?case by simp
next
  case (Suc n)
  note IH = Suc.IH
  show ?case
  proof (cases e)
    case (Str s)
    with Suc.prems have sw: "starts_with (rest p) s" and q: "q = advance (length s) p"
      by (auto split: if_splits)
    from q have "length (rest q) = length (rest p) - length s"
      by (simp only: advance_rest length_drop)
    with starts_with_length [OF sw] Str show ?thesis
      by (cases s) auto
  next
    case ANY
    with Suc.prems one_char_rest show ?thesis by fastforce
  next
    case ASCII_ALPHA
    with Suc.prems one_char_rest show ?thesis by fastforce
  next
    case ASCII_DIGIT
    with Suc.prems one_char_rest show ?thesis by fastforce
  next
    case ASCII_ALPHANUMERIC
    with Suc.prems one_char_rest show ?thesis by fastforce
  next
    case SOI
    with Suc.prems show ?thesis by (auto split: if_splits)
  next
    case EOI
    with Suc.prems show ?thesis by (auto split: if_splits)
  next
    case (Call r)
    obtain ty body where g: "grammar r = (ty, body)" by (cases "grammar r")
    from Suc.prems Call g obtain a' inner where
      sub: "pmatch n a' body p = Matched (inner, q)"
      by (cases ty) (auto split: outcome.splits)
    from IH [OF sub] body_consumes [of r] g Call show ?thesis by auto
  next
    case (Seq x y)
    from Suc.prems Seq obtain ps1 q1 ws q2 ps2 where
      x: "pmatch n a x p = Matched (ps1, q1)" and s: "pmatch n a Skip q1 = Matched (ws, q2)"
      and y: "pmatch n a y q2 = Matched (ps2, q)"
      by (auto split: outcome.splits)
    from IH [OF x] IH [OF s] IH [OF y] Seq show ?thesis by auto
  next
    case (Choice x y)
    from Suc.prems Choice have
      "pmatch n a x p = Matched (ps, q) \<or> pmatch n a y p = Matched (ps, q)"
      by (auto split: outcome.splits)
    with IH Choice show ?thesis by auto
  next
    case (Opt x)
    from Suc.prems Opt have "pmatch n a x p = Matched (ps, q) \<or> q = p"
      by (auto split: outcome.splits)
    with IH Opt show ?thesis by auto
  next
    case (Rep x)
    from Suc.prems Rep have
      "q = p \<or> (\<exists>ps1 q1 ps2. pmatch n a x p = Matched (ps1, q1)
                  \<and> pmatch n a (RepTail x) q1 = Matched (ps2, q))"
      by (auto split: outcome.splits)
    then show ?thesis
    proof
      assume "q = p"
      with Rep show ?thesis by simp
    next
      assume "\<exists>ps1 q1 ps2. pmatch n a x p = Matched (ps1, q1)
                  \<and> pmatch n a (RepTail x) q1 = Matched (ps2, q)"
      then obtain ps1 q1 ps2 where x: "pmatch n a x p = Matched (ps1, q1)"
        and t: "pmatch n a (RepTail x) q1 = Matched (ps2, q)" by blast
      from IH [OF x] IH [OF t] Rep show ?thesis by simp
    qed
  next
    case (Not x)
    with Suc.prems show ?thesis by (auto split: outcome.splits)
  next
    case Skip
    from Suc.prems Skip have "q = p \<or> (\<exists>ws. pmatch n True skip_expr p = Matched (ws, q))"
      by (auto split: outcome.splits if_splits)
    with IH Skip show ?thesis by auto
  next
    case (RepTail x)
    from Suc.prems RepTail have
      "q = p \<or> (\<exists>ws q1 ps1 q2 ps2. pmatch n a Skip p = Matched (ws, q1)
                  \<and> pmatch n a x q1 = Matched (ps1, q2)
                  \<and> pmatch n a (RepTail x) q2 = Matched (ps2, q))"
      by (auto split: outcome.splits)
    then show ?thesis
    proof
      assume "q = p"
      with RepTail show ?thesis by simp
    next
      assume "\<exists>ws q1 ps1 q2 ps2. pmatch n a Skip p = Matched (ws, q1)
                  \<and> pmatch n a x q1 = Matched (ps1, q2)
                  \<and> pmatch n a (RepTail x) q2 = Matched (ps2, q)"
      then obtain ws q1 ps1 q2 ps2 where s: "pmatch n a Skip p = Matched (ws, q1)"
        and x: "pmatch n a x q1 = Matched (ps1, q2)"
        and t: "pmatch n a (RepTail x) q2 = Matched (ps2, q)" by blast
      from IH [OF s] IH [OF x] IH [OF t] RepTail show ?thesis by simp
    qed
  qed
qed


text \<open>
  A well-formed expression is matched without exhausting a depth of its need plus
  \<open>fresh\<close> for every character left; so the depth that \<open>BuildParser_parse\<close> allows is
  never exhausted.
\<close>

lemma pmatch_no_timeout_more_fuel:
  assumes "pmatch n a e p \<noteq> Timeout" and "n \<le> m"
  shows "pmatch m a e p \<noteq> Timeout"
  using pmatch_more_fuel [OF refl assms] assms(1) by simp

lemma pmatch_within_need:
  "wf a e \<Longrightarrow> need a e \<le> d \<Longrightarrow> length (rest p) = k
   \<Longrightarrow> pmatch (d + fresh * k) a e p \<noteq> Timeout"
proof (induction k arbitrary: d a e p rule: less_induct)
  case (less k)
  note outer = less.IH
  from less.prems show ?case
  proof (induction d arbitrary: a e p rule: less_induct)
    case (less d)
    note inner = less.IH
    from less.prems(2) need_pos [of a e] have dpos: "0 < d" by simp
    then obtain n where n: "d + fresh * k = Suc n"
      by (cases d) auto
    have same: "pmatch n a' e' p' \<noteq> Timeout"
      if w: "wf a' e'" and nd: "need a' e' < d" and len: "length (rest p') \<le> k" for a' e' p'
    proof (cases "length (rest p') = k")
      case True
      from inner [OF nd w le_refl True]
      have "pmatch (need a' e' + fresh * k) a' e' p' \<noteq> Timeout" .
      moreover from nd n have "need a' e' + fresh * k \<le> n" by simp
      ultimately show ?thesis by (rule pmatch_no_timeout_more_fuel)
    next
      case False
      with len have lt: "length (rest p') < k" by simp
      from outer [OF lt w le_refl refl]
      have "pmatch (need a' e' + fresh * length (rest p')) a' e' p' \<noteq> Timeout" .
      moreover from nd n lt have "need a' e' + fresh * length (rest p') \<le> n"
        unfolding fresh_def by arith
      ultimately show ?thesis by (rule pmatch_no_timeout_more_fuel)
    qed
    have later: "pmatch n a' e' p' \<noteq> Timeout"
      if w: "wf a' e'" and nd: "need a' e' \<le> fresh" and lt: "length (rest p') < k" for a' e' p'
    proof -
      from outer [OF lt w nd refl]
      have "pmatch (fresh + fresh * length (rest p')) a' e' p' \<noteq> Timeout" .
      moreover from n lt dpos have "fresh + fresh * length (rest p') \<le> n"
        unfolding fresh_def by arith
      ultimately show ?thesis by (rule pmatch_no_timeout_more_fuel)
    qed
    note w = less.prems(1) and nd = less.prems(2) and k = less.prems(3)
    have "pmatch (Suc n) a e p \<noteq> Timeout"
    proof (cases e)
      case (Call r)
      obtain ty body where g: "grammar r = (ty, body)" by (cases "grammar r")
      from body_need [of a r] nd Call g have "need (mode a r) body < d" by simp
      with same [OF _ _ eq_refl [OF k]] body_wf [of a r] g
      have "pmatch n (mode a r) body p \<noteq> Timeout" by simp
      with Call g show ?thesis
        by (cases ty) (auto simp: mode_def split: outcome.splits)
    next
      case (Seq x y)
      from w Seq have wx: "wf a x" and wy: "wf a y" by simp_all
      from nd Seq have nx: "need a x < d" and ns: "need a Skip < d" by simp_all
      have x: "pmatch n a x p \<noteq> Timeout" by (rule same [OF wx nx eq_refl [OF k]])
      show ?thesis
      proof (cases "pmatch n a x p")
        case (Matched r1)
        obtain ps1 q1 where r1: "r1 = (ps1, q1)" by (cases r1)
        from pmatch_rest [of n a x p ps1 q1] Matched r1 k
        have l1: "length (rest q1) \<le> k" and c1: "consumes x \<Longrightarrow> length (rest q1) < k" by simp_all
        have s: "pmatch n a Skip q1 \<noteq> Timeout" by (rule same [OF _ ns l1]) simp
        show ?thesis
        proof (cases "pmatch n a Skip q1")
          case m2: (Matched r2)
          obtain ws q2 where r2: "r2 = (ws, q2)" by (cases r2)
          from pmatch_rest [of n a Skip q1 ws q2] m2 r2
          have l2: "length (rest q2) \<le> length (rest q1)" by simp
          have "pmatch n a y q2 \<noteq> Timeout"
          proof (cases "consumes x")
            case True
            with w Seq have "need a y \<le> fresh" by simp
            moreover from c1 [OF True] l2 have "length (rest q2) < k" by simp
            ultimately show ?thesis using later [OF wy] by blast
          next
            case False
            with nd Seq have "need a y < d" by simp
            moreover from l1 l2 have "length (rest q2) \<le> k" by simp
            ultimately show ?thesis using same [OF wy] by blast
          qed
          with Seq Matched r1 m2 r2 show ?thesis by (simp split: outcome.splits)
        next
          case NoMatch
          with Seq Matched r1 show ?thesis by simp
        next
          case Timeout
          with s show ?thesis by simp
        qed
      next
        case NoMatch
        with Seq show ?thesis by simp
      next
        case Timeout
        with x show ?thesis by simp
      qed
    next
      case (Choice x y)
      from w Choice have wx: "wf a x" and wy: "wf a y" by simp_all
      from nd Choice have nx: "need a x < d" and ny: "need a y < d" by simp_all
      from same [OF wx nx eq_refl [OF k]] same [OF wy ny eq_refl [OF k]] Choice
      show ?thesis by (simp split: outcome.splits)
    next
      case (Opt x)
      from w Opt have wx: "wf a x" by simp
      from nd Opt have nx: "need a x < d" by simp
      from same [OF wx nx eq_refl [OF k]] Opt
      show ?thesis by (simp split: outcome.splits)
    next
      case (Not x)
      from w Not have wx: "wf a x" by simp
      from nd Not have nx: "need a x < d" by simp
      from same [OF wx nx eq_refl [OF k]] Not
      show ?thesis by (simp split: outcome.splits)
    next
      case (Rep x)
      from w Rep have wx: "wf a x" and cx: "consumes x" and wt: "wf a (RepTail x)"
        and nt: "need a (RepTail x) \<le> fresh" by simp_all
      from nd Rep have nx: "need a x < d" by simp
      have x: "pmatch n a x p \<noteq> Timeout" by (rule same [OF wx nx eq_refl [OF k]])
      show ?thesis
      proof (cases "pmatch n a x p")
        case (Matched r1)
        obtain ps1 q1 where r1: "r1 = (ps1, q1)" by (cases r1)
        from pmatch_rest [of n a x p ps1 q1] Matched r1 k cx
        have "length (rest q1) < k" by simp
        from later [OF wt nt this] Rep Matched r1 show ?thesis
          by (simp split: outcome.splits)
      next
        case NoMatch
        with Rep show ?thesis by simp
      next
        case Timeout
        with x show ?thesis by simp
      qed
    next
      case Skip
      show ?thesis
      proof (cases a)
        case True
        with Skip show ?thesis by simp
      next
        case False
        with nd Skip skip_need have "need True skip_expr < d" by simp
        from same [OF skip_wf this eq_refl [OF k]] Skip False show ?thesis
          by (simp split: outcome.splits)
      qed
    next
      case (RepTail x)
      from w RepTail have wx: "wf a x" and cx: "consumes x" and wt: "wf a (RepTail x)"
        and nt: "need a (RepTail x) \<le> fresh" by simp_all
      from nd RepTail have nx: "need a x < d" and ns: "need a Skip < d" by simp_all
      have s: "pmatch n a Skip p \<noteq> Timeout" by (rule same [OF _ ns eq_refl [OF k]]) simp
      show ?thesis
      proof (cases "pmatch n a Skip p")
        case (Matched r1)
        obtain ws q1 where r1: "r1 = (ws, q1)" by (cases r1)
        from pmatch_rest [of n a Skip p ws q1] Matched r1 k
        have l1: "length (rest q1) \<le> k" by simp
        have x: "pmatch n a x q1 \<noteq> Timeout" by (rule same [OF wx nx l1])
        show ?thesis
        proof (cases "pmatch n a x q1")
          case m2: (Matched r2)
          obtain ps1 q2 where r2: "r2 = (ps1, q2)" by (cases r2)
          from pmatch_rest [of n a x q1 ps1 q2] m2 r2 cx l1
          have "length (rest q2) < k" by simp
          from later [OF wt nt this] RepTail Matched r1 m2 r2 show ?thesis
            by (simp split: outcome.splits)
        next
          case NoMatch
          with RepTail Matched r1 show ?thesis by simp
        next
          case Timeout
          with x show ?thesis by simp
        qed
      next
        case NoMatch
        with RepTail show ?thesis by simp
      next
        case Timeout
        with s show ?thesis by simp
      qed
    qed (simp_all add: one_char_def split: list.splits)
    with n show ?case by simp
  qed
qed

lemma pmatch_bound_not_reached:
  "pmatch (24 * length input + 24) False (Call r) (Position input 0 1 1) \<noteq> Timeout"
proof -
  have w: "wf False (Call r)" by simp
  have n: "need False (Call r) \<le> fresh"
    by (cases r) (simp_all add: fresh_def)
  have l: "length (rest (Position input 0 1 1)) = length input" by simp
  have eq: "24 * length input + 24 = fresh + fresh * length input"
    by (simp add: fresh_def)
  show ?thesis unfolding eq by (rule pmatch_within_need [OF w n l])
qed

lemma BuildParser_parse_cases:
  "(\<exists>ps p. pmatch (24 * length input + 24) False (Call r) (Position input 0 1 1) = Matched (ps, p)
           \<and> BuildParser_parse r input = Inr ps)
   \<or> (pmatch (24 * length input + 24) False (Call r) (Position input 0 1 1) = NoMatch
       \<and> BuildParser_parse r input = Inl ParsingError)"
  using pmatch_bound_not_reached [of input r]
  by (cases "pmatch (24 * length input + 24) False (Call r) (Position input 0 1 1)")
     (auto simp: BuildParser_parse_def)

text \<open>
  A rule that is not silent, asked for at the top, yields exactly one pair, its own:
  the pairs of what it matched inside are the children of that pair.
\<close>

lemma BuildParser_parse_single:
  assumes "BuildParser_parse r input = Inr ps" and "fst (grammar r) \<noteq> Silent"
  shows "\<exists>s lc inner. ps = [MkPair r s lc inner]"
proof -
  obtain k where k: "24 * length input + 24 = Suc k"
    by (rule that [of "24 * length input + 23"]) simp
  obtain ty body where g: "grammar r = (ty, body)" by (cases "grammar r")
  with assms(2) have "ty = Normal \<or> ty = Atomic" by (cases ty) simp_all
  with assms(1) k g show ?thesis
    by (auto simp: BuildParser_parse_def split: outcome.splits)
qed

section \<open>Properties of the BUILD file parser\<close>

lemma parse_statement_call:
  "parse_statement self (MkPair Rule_function_call s lc (k # args)) =
     (if \<not> is_bazel_rule (as_str k) then Inr None
      else (case parse_arguments args Map.empty of
              Inl e \<Rightarrow> Inl e
            | Inr attrs \<Rightarrow>
                (case attrs ''name'' of
                   Some (Value_String n) \<Rightarrow>
                     Inr (Some \<lparr>name = ''//'' @ package_name self @ '':'' @ n,
                                kind = as_str k, attributes = attrs,
                                location = \<lparr>line = fst lc, column = snd lc\<rparr>\<rparr>)
                 | _ \<Rightarrow> Inr None)))"
  by (simp add: parse_statement_def split: sum.splits option.splits Value.splits)

lemma tree_call_without_name:
  "BuildParser_parse Rule_function_call ''filegroup(srcs = [])'' = Inr [call_without_name]"
  unfolding call_without_name_def by code_simp

lemma tree_call_unknown_kind:
  "BuildParser_parse Rule_function_call ''my_rule(name = x)'' = Inr [call_unknown_kind]"
  unfolding call_unknown_kind_def by code_simp

lemma tree_call_deps_only:
  "BuildParser_parse Rule_function_call ''go_library(deps = [:base])'' = Inr [call_deps_only]"
  unfolding call_deps_only_def by code_simp

lemma tree_call_named:
  "BuildParser_parse Rule_function_call ''go_test(name = t)'' = Inr [call_named]"
  unfolding call_named_def by code_simp

text \<open>
  \<open>parse\<close> iterates over the top-level pairs, and for \<open>Rule::file\<close> there is one, the
  pair of the rule \<open>file\<close>; the statements are its children.  \<open>parse_statement\<close> takes
  a pair of any rule but \<open>function_call\<close> for something to skip, so the loop of \<open>parse\<close>
  as written collects nothing.  The properties of promotion below are therefore stated
  for \<open>parse_statement\<close> on the pair of a call and for the loop over any list of pairs.
\<close>

lemma parse_statement_file: "parse_statement self (MkPair Rule_file s lc inner) = Inr None"
  by (simp add: parse_statement_def)

lemma parse_collects_nothing:
  assumes "parse self content = Inr rs"
  shows "rs = []"
proof -
  from assms obtain pairs where p: "BuildParser_parse Rule_file content = Inr pairs"
    and r: "parse_pairs self pairs [] = Inr rs"
    by (auto simp: parse_def split: sum.splits)
  from BuildParser_parse_single [OF p] obtain s lc inner where
    "pairs = [MkPair Rule_file s lc inner]" by auto
  with r show ?thesis by (simp add: parse_statement_file)
qed

text \<open>
  C1, as the code has it.  When the text does not match the grammar, \<open>parse\<close> returns
  that one error for the whole file; it returns rules only when the whole text matched,
  and then they are what the loop over the top-level pairs collected.  There is no
  list of diagnostics and no recovery at a statement boundary.
\<close>

theorem parse_fails_as_a_whole:
  "(BuildParser_parse Rule_file content = Inl e
      \<longrightarrow> parse self content = Inl (Pest e))
   \<and> (parse self content = Inr rs
      \<longrightarrow> (\<exists>pairs. BuildParser_parse Rule_file content = Inr pairs
            \<and> parse_pairs self pairs [] = Inr rs))"
  by (auto simp: parse_def split: sum.splits)

theorem parse_fails_as_a_whole_witness:
  "BuildParser_parse Rule_file ''load('' = Inl ParsingError
   \<and> parse (BuildFileParser_new ''pkg'') ''load('' = Inl (Pest ParsingError)"
proof -
  have bad: "BuildParser_parse Rule_file ''load('' = Inl ParsingError"
    by code_simp
  with parse_fails_as_a_whole [of "''load(''" ParsingError "BuildFileParser_new ''pkg''"]
  show ?thesis by simp
qed

text \<open>
  C1, as the specification states it, fails: \<open>go_library(name = lib)\<close> is a statement
  of the grammar, yet once the unfinished call \<open>go_binary(\<close> follows it the result is
  the error alone.
\<close>

theorem parse_no_recovery_counterexample:
  "parse (BuildFileParser_new ''pkg'') ''go_library(name = lib) go_binary(''
     = Inl (Pest ParsingError)
   \<and> \<not> isl (BuildParser_parse Rule_statement ''go_library(name = lib)'')"
proof -
  have "BuildParser_parse Rule_file ''go_library(name = lib) go_binary('' = Inl ParsingError"
    by code_simp
  moreover have
    "\<not> isl (BuildParser_parse Rule_statement ''go_library(name = lib)'')"
    by code_simp
  ultimately show ?thesis
    by (simp add: parse_def)
qed

text \<open>
  C6, as the code has it.  A call is promoted exactly when its name is in the fixed list
  of \<open>is_bazel_rule\<close> and its arguments give a \<open>name\<close> attribute holding a
  \<open>Value::String\<close>.  A call whose name is not in the list is discarded: the statement
  yields \<open>None\<close> and the loop of \<open>parse\<close> goes on as if it were not there.
\<close>

theorem promoted_iff_listed_and_named:
  "(parse_statement self (MkPair Rule_function_call s lc (k # args)) = Inr (Some rule)
      \<longleftrightarrow> is_bazel_rule (as_str k)
          \<and> (\<exists>attrs n. parse_arguments args Map.empty = Inr attrs
                \<and> attrs ''name'' = Some (Value_String n)
                \<and> rule = \<lparr>name = ''//'' @ package_name self @ '':'' @ n, kind = as_str k,
                           attributes = attrs,
                           location = \<lparr>line = fst lc, column = snd lc\<rparr>\<rparr>))
   \<and> (\<not> is_bazel_rule (as_str k)
        \<longrightarrow> parse_statement self (MkPair Rule_function_call s lc (k # args)) = Inr None
          \<and> parse_pairs self (MkPair Rule_function_call s lc (k # args) # pairs) acc
              = parse_pairs self pairs acc)"
  by (auto simp: parse_statement_call split: sum.splits option.splits Value.splits)

theorem promoted_iff_listed_and_named_witness:
  "\<not> is_bazel_rule ''my_rule''
   \<and> parse_statement (BuildFileParser_new ''pkg'') call_unknown_kind = Inr None
   \<and> is_bazel_rule ''go_test''
   \<and> parse_statement (BuildFileParser_new ''pkg'') call_named
       = Inr (Some \<lparr>name = ''//pkg:t'', kind = ''go_test'',
                    attributes = [''name'' \<mapsto> Value_String ''t''],
                    location = \<lparr>line = 1, column = 1\<rparr>\<rparr>)"
proof -
  let ?self = "BuildFileParser_new ''pkg''"
  let ?unknown = "[MkPair Rule_argument ''name = x'' (1, 9)
          [MkPair Rule_identifier ''name'' (1, 9) [],
           MkPair Rule_value ''x'' (1, 16) [MkPair Rule_identifier ''x'' (1, 16) []]]]"
  let ?named = "[MkPair Rule_argument ''name = t'' (1, 9)
          [MkPair Rule_identifier ''name'' (1, 9) [],
           MkPair Rule_value ''t'' (1, 16) [MkPair Rule_identifier ''t'' (1, 16) []]]]"
  let ?rule = "\<lparr>name = ''//pkg:t'', kind = ''go_test'',
                attributes = [''name'' \<mapsto> Value_String ''t''],
                location = \<lparr>line = 1, column = 1\<rparr>\<rparr>"
  have no: "\<not> is_bazel_rule ''my_rule''" and yes: "is_bazel_rule ''go_test''"
    by (simp_all add: is_bazel_rule_def)
  from no have unlisted: "\<not> is_bazel_rule (as_str (MkPair Rule_identifier ''my_rule'' (1, 1) []))"
    by simp
  have args: "parse_arguments ?named Map.empty = Inr [''name'' \<mapsto> Value_String ''t'']"
    by simp
  note discarded = promoted_iff_listed_and_named
    [of ?self "''my_rule(name = x)''" "(1, 1)" "MkPair Rule_identifier ''my_rule'' (1, 1) []"
        ?unknown ?rule "[]" "[]", THEN conjunct2, THEN mp, OF unlisted, THEN conjunct1]
  note promoted = promoted_iff_listed_and_named
    [of ?self "''go_test(name = t)''" "(1, 1)" "MkPair Rule_identifier ''go_test'' (1, 1) []"
        ?named ?rule "[]" "[]", THEN conjunct1, THEN iffD2]
  have "parse_statement ?self call_named = Inr (Some ?rule)"
    unfolding call_named_def
    by (rule promoted) (simp add: yes args BuildFileParser_new_def)
  with discarded no yes show ?thesis
    by (simp add: call_unknown_kind_def)
qed

text \<open>
  C6, as the specification states it, fails twice.  \<open>filegroup\<close> is in the list, yet
  \<open>filegroup(srcs = [])\<close> is not promoted; and \<open>my_rule(name = x)\<close>, whose kind is not in
  the list, is not retained: nothing of it is left in what \<open>parse\<close> collects.
\<close>

theorem promotion_counterexample:
  "BuildParser_parse Rule_function_call ''filegroup(srcs = [])'' = Inr [call_without_name]
   \<and> is_bazel_rule ''filegroup''
   \<and> parse_statement (BuildFileParser_new ''pkg'') call_without_name = Inr None
   \<and> BuildParser_parse Rule_function_call ''my_rule(name = x)'' = Inr [call_unknown_kind]
   \<and> parse_statement (BuildFileParser_new ''pkg'') call_unknown_kind = Inr None
   \<and> parse_pairs (BuildFileParser_new ''pkg'') [call_unknown_kind] [] = Inr []"
proof -
  have "is_bazel_rule ''filegroup''"
    by (simp add: is_bazel_rule_def)
  moreover have "parse_statement (BuildFileParser_new ''pkg'') call_without_name = Inr None"
    by (simp add: call_without_name_def parse_statement_def is_bazel_rule_def)
  moreover have "parse_statement (BuildFileParser_new ''pkg'') call_unknown_kind = Inr None"
    by (simp add: call_unknown_kind_def parse_statement_def is_bazel_rule_def)
  ultimately show ?thesis
    by (simp add: tree_call_without_name tree_call_unknown_kind)
qed

text \<open>
  C8, as the code has it.  A call whose name is in the list but whose arguments give no
  \<open>name\<close> attribute holding a \<open>Value::String\<close> is dropped: the statement yields
  \<open>Ok(None)\<close>, which is no error and carries no diagnostic, and the loop of \<open>parse\<close>
  goes on as if the call were not there.
\<close>

theorem unnamed_rule_dropped_without_diagnostic:
  assumes "is_bazel_rule (as_str k)"
    and "parse_arguments args Map.empty = Inr attrs"
    and "\<forall>n. attrs ''name'' \<noteq> Some (Value_String n)"
  shows "parse_statement self (MkPair Rule_function_call s lc (k # args)) = Inr None
       \<and> parse_pairs self (MkPair Rule_function_call s lc (k # args) # pairs) acc
           = parse_pairs self pairs acc"
proof -
  from assms have "parse_statement self (MkPair Rule_function_call s lc (k # args)) = Inr None"
    by (auto simp: parse_statement_call split: option.splits Value.splits)
  then show ?thesis by simp
qed

theorem unnamed_rule_dropped_without_diagnostic_witness:
  "is_bazel_rule ''go_library''
   \<and> parse_statement (BuildFileParser_new ''pkg'') call_deps_only = Inr None"
proof -
  let ?k = "MkPair Rule_identifier ''go_library'' (1, 1) []"
  let ?args = "[MkPair Rule_argument ''deps = [:base]'' (1, 12)
          [MkPair Rule_identifier ''deps'' (1, 12) [],
           MkPair Rule_value ''[:base]'' (1, 19)
             [MkPair Rule_list ''[:base]'' (1, 19)
                [MkPair Rule_list_item '':base'' (1, 20)
                   [MkPair Rule_target_ref '':base'' (1, 20) []]]]]]"
  have listed: "is_bazel_rule (as_str ?k)"
    by (simp add: is_bazel_rule_def)
  have args: "parse_arguments ?args Map.empty = Inr [''deps'' \<mapsto> Value_String ''[:base]'']"
    by simp
  have unnamed: "\<forall>n. [''deps'' \<mapsto> Value_String ''[:base]''] ''name'' \<noteq> Some (Value_String n)"
    by simp
  from unnamed_rule_dropped_without_diagnostic [OF listed args unnamed]
  show ?thesis using listed by (simp add: call_deps_only_def)
qed

text \<open>
  C8, as the specification states it, fails: \<open>go_library(deps = [:base])\<close> has a kind of
  the list and no name; it is dropped, and the result is \<open>Ok(None)\<close>, the very value a
  statement that is no rule at all yields, so that what \<open>parse\<close> collects is what it
  collects from nothing.
\<close>

theorem unnamed_rule_counterexample:
  "BuildParser_parse Rule_function_call ''go_library(deps = [:base])'' = Inr [call_deps_only]
   \<and> is_bazel_rule ''go_library''
   \<and> parse_statement (BuildFileParser_new ''pkg'') call_deps_only = Inr None
   \<and> parse_pairs (BuildFileParser_new ''pkg'') [call_deps_only] []
       = parse_pairs (BuildFileParser_new ''pkg'') [] []"
proof -
  have "is_bazel_rule ''go_library''"
    by (simp add: is_bazel_rule_def)
  moreover have "parse_statement (BuildFileParser_new ''pkg'') call_deps_only = Inr None"
    by (simp add: call_deps_only_def parse_statement_def is_bazel_rule_def)
  ultimately show ?thesis
    by (simp add: tree_call_deps_only)
qed

section \<open>Properties of the parse cache\<close>

lemma get_or_parse_hit:
  assumes "cache self path = Some cached"
    and "hash cached = blake3 content"
    and "now - timestamp cached < ttl self"
  shows "get_or_parse blake3 now later self path content parse_fn = (Inr (rules cached), self)"
  using assms by (simp add: get_or_parse_def)

lemma get_or_parse_miss:
  assumes "\<not> (\<exists>cached. cache self path = Some cached \<and> hash cached = blake3 content
                 \<and> now - timestamp cached < ttl self)"
  shows "get_or_parse blake3 now later self path content parse_fn =
           (case parse_fn content of
              Inl e \<Rightarrow> (Inl e, self)
            | Inr rs \<Rightarrow>
                (Inr rs, self\<lparr>cache := (cache self)(path \<mapsto>
                   \<lparr>rules = rs, hash = blake3 content, timestamp = later\<rparr>)\<rparr>))"
proof (cases "cache self path")
  case None
  then show ?thesis by (simp add: get_or_parse_def)
next
  case (Some cached)
  with assms have "\<not> (hash cached = blake3 content \<and> now - timestamp cached < ttl self)"
    by simp
  with Some show ?thesis by (auto simp: get_or_parse_def Let_def)
qed

lemma get_or_parse_keeps_entries_parsed:
  assumes "entries_parsed blake3 parse_fn self"
  shows "entries_parsed blake3 parse_fn
           (snd (get_or_parse blake3 now later self path content parse_fn))"
proof (cases "\<exists>cached. cache self path = Some cached \<and> hash cached = blake3 content
                 \<and> now - timestamp cached < ttl self")
  case True
  then show ?thesis using assms by (auto simp: get_or_parse_hit)
next
  case False
  show ?thesis
  proof (cases "parse_fn content")
    case (Inl e)
    with False assms show ?thesis by (simp add: get_or_parse_miss)
  next
    case (Inr rs)
    with False assms show ?thesis
      unfolding entries_parsed_def by (auto simp: get_or_parse_miss)
  qed
qed

lemma get_or_parse_result_parsed:
  assumes "entries_parsed blake3 parse_fn self"
    and "fst (get_or_parse blake3 now later self path content parse_fn) = Inr rs"
  shows "\<exists>c. blake3 c = blake3 content \<and> parse_fn c = Inr rs"
proof (cases "\<exists>cached. cache self path = Some cached \<and> hash cached = blake3 content
                 \<and> now - timestamp cached < ttl self")
  case True
  then obtain cached where c: "cache self path = Some cached" "hash cached = blake3 content"
    "now - timestamp cached < ttl self" by blast
  with assms(2) have "rules cached = rs" by (simp add: get_or_parse_hit)
  with assms(1) c show ?thesis unfolding entries_parsed_def by metis
next
  case False
  with assms(2) have "parse_fn content = Inr rs"
    by (auto simp: get_or_parse_miss split: sum.splits)
  then show ?thesis by blast
qed

text \<open>
  C10, as the code has it.  A cached vector is returned when, and only when, the entry
  for the path holds the hash of the content supplied and is younger than the
  time-to-live; the cache is then unchanged.  Otherwise the content is parsed: a
  successful parse is returned and stored with the hash of the content, a failed one
  returns its error and leaves the cache as it was.  So, where every entry came from
  parsing some content of its hash, this stays so, and every vector returned is the
  parse of some content that has the hash of the content supplied.
\<close>

theorem get_or_parse_serves_matching_hash_only:
  "(\<forall>cached. cache self path = Some cached \<and> hash cached = blake3 content
        \<and> now - timestamp cached < ttl self
      \<longrightarrow> get_or_parse blake3 now later self path content parse_fn
            = (Inr (rules cached), self))
   \<and> (\<not> (\<exists>cached. cache self path = Some cached \<and> hash cached = blake3 content
                \<and> now - timestamp cached < ttl self)
      \<longrightarrow> get_or_parse blake3 now later self path content parse_fn
            = (case parse_fn content of
                 Inl e \<Rightarrow> (Inl e, self)
               | Inr rs \<Rightarrow>
                   (Inr rs, self\<lparr>cache := (cache self)(path \<mapsto>
                      \<lparr>rules = rs, hash = blake3 content, timestamp = later\<rparr>)\<rparr>)))
   \<and> (entries_parsed blake3 parse_fn self
      \<longrightarrow> entries_parsed blake3 parse_fn
            (snd (get_or_parse blake3 now later self path content parse_fn))
          \<and> (\<forall>rs. fst (get_or_parse blake3 now later self path content parse_fn) = Inr rs
                \<longrightarrow> (\<exists>c. blake3 c = blake3 content \<and> parse_fn c = Inr rs)))"
proof (intro conjI allI impI)
  fix cached
  assume "cache self path = Some cached \<and> hash cached = blake3 content
            \<and> now - timestamp cached < ttl self"
  then show "get_or_parse blake3 now later self path content parse_fn
               = (Inr (rules cached), self)"
    by (simp add: get_or_parse_hit)
next
  assume "\<not> (\<exists>cached. cache self path = Some cached \<and> hash cached = blake3 content
                \<and> now - timestamp cached < ttl self)"
  then show "get_or_parse blake3 now later self path content parse_fn
               = (case parse_fn content of
                    Inl e \<Rightarrow> (Inl e, self)
                  | Inr rs \<Rightarrow>
                      (Inr rs, self\<lparr>cache := (cache self)(path \<mapsto>
                         \<lparr>rules = rs, hash = blake3 content, timestamp = later\<rparr>)\<rparr>))"
    by (rule get_or_parse_miss)
next
  assume "entries_parsed blake3 parse_fn self"
  then show "entries_parsed blake3 parse_fn
               (snd (get_or_parse blake3 now later self path content parse_fn))"
    by (rule get_or_parse_keeps_entries_parsed)
next
  fix rs
  assume "entries_parsed blake3 parse_fn self"
    and "fst (get_or_parse blake3 now later self path content parse_fn) = Inr rs"
  then show "\<exists>c. blake3 c = blake3 content \<and> parse_fn c = Inr rs"
    by (rule get_or_parse_result_parsed)
qed

theorem get_or_parse_serves_matching_hash_only_witness:
  "get_or_parse (\<lambda>s. s) 7 8 (ParseCache_new 10) [''w'', ''BUILD''] ''x = 1'' parse_one
     = (Inr [one_rule], stored_once)
   \<and> get_or_parse (\<lambda>s. s) 12 13 stored_once [''w'', ''BUILD''] ''x = 1'' parse_failing
     = (Inr [one_rule], stored_once)
   \<and> entries_parsed (\<lambda>s. s) parse_one
        (snd (get_or_parse (\<lambda>s. s) 7 8 (ParseCache_new 10) [''w'', ''BUILD''] ''x = 1'' parse_one))"
proof -
  let ?new = "ParseCache_new 10 :: string ParseCache"
  let ?entry = "\<lparr>rules = [one_rule], hash = ''x = 1'', timestamp = 8\<rparr>"
  have empty: "entries_parsed (\<lambda>s. s) parse_one ?new"
    by (simp add: entries_parsed_def ParseCache_new_def)
  have miss: "\<not> (\<exists>cached. cache ?new [''w'', ''BUILD''] = Some cached
                   \<and> hash cached = (\<lambda>s. s) ''x = 1'' \<and> 7 - timestamp cached < ttl ?new)"
    by (simp add: ParseCache_new_def)
  have hit: "cache stored_once [''w'', ''BUILD''] = Some ?entry
             \<and> hash ?entry = (\<lambda>s. s) ''x = 1'' \<and> 12 - timestamp ?entry < ttl stored_once"
    by (simp add: stored_once_def)
  note fresh = get_or_parse_serves_matching_hash_only
    [of ?new "[''w'', ''BUILD'']" "\<lambda>s. s" "''x = 1''" 7 8 parse_one]
  note again = get_or_parse_serves_matching_hash_only
    [of stored_once "[''w'', ''BUILD'']" "\<lambda>s. s" "''x = 1''" 12 13 parse_failing]
  from fresh [THEN conjunct2, THEN conjunct1, THEN mp, OF miss]
  have first: "get_or_parse (\<lambda>s. s) 7 8 ?new [''w'', ''BUILD''] ''x = 1'' parse_one
                 = (Inr [one_rule], stored_once)"
    by (simp add: parse_one_def ParseCache_new_def stored_once_def)
  from again [THEN conjunct1, THEN spec, THEN mp, OF hit]
  have second: "get_or_parse (\<lambda>s. s) 12 13 stored_once [''w'', ''BUILD''] ''x = 1'' parse_failing
                  = (Inr [one_rule], stored_once)"
    by simp
  from fresh [THEN conjunct2, THEN conjunct2, THEN mp, OF empty, THEN conjunct1]
  have third: "entries_parsed (\<lambda>s. s) parse_one
        (snd (get_or_parse (\<lambda>s. s) 7 8 ?new [''w'', ''BUILD''] ''x = 1'' parse_one))" .
  from first second third show ?thesis by (intro conjI)
qed

text \<open>
  C10, as the specification states it, fails where the parse fails: nothing is cached
  for the path, the error is returned and the cache is left without an entry.
\<close>

theorem get_or_parse_failed_parse_counterexample:
  "fst (get_or_parse (\<lambda>s. s) 7 8 (ParseCache_new 10) [''w'', ''BUILD''] ''go_binary(''
          parse_failing) = Inl (Pest ParsingError)
   \<and> cache (snd (get_or_parse (\<lambda>s. s) 7 8 (ParseCache_new 10) [''w'', ''BUILD'']
          ''go_binary('' parse_failing)) [''w'', ''BUILD''] = None"
  by (simp add: get_or_parse_def ParseCache_new_def parse_failing_def)

section \<open>Properties of the build graph\<close>

lemma get_target_for_file_labels:
  "get_target_for_file g (FileUrl p) =
     (case labels_at (file_to_targets g) p of [] \<Rightarrow> None | l # ls \<Rightarrow> targets g l)"
  by (simp add: get_target_for_file_def labels_at_def split: option.splits list.splits)

lemma is_build_file_parent: "is_build_file f \<Longrightarrow> parent f \<noteq> None"
  by (auto simp: is_build_file_def parent_def)

subsection \<open>A call of \<open>parse_build_file\<close> is the run of its operations\<close>

lemma push_srcs_steps:
  assumes "parent path = Some dir"
  shows "push_srcs path lbl ss (file_to_targets g)
           = Inr (file_to_targets
                    (fold apply_step (map (\<lambda>src. Push (join dir src) lbl) ss) g))"
proof (induction ss arbitrary: g)
  case Nil
  then show ?case by simp
next
  case (Cons s ss)
  let ?g = "apply_step (Push (join dir s) lbl) g"
  have "push_srcs path lbl (s # ss) (file_to_targets g)
          = push_srcs path lbl ss (file_to_targets ?g)"
    using assms by simp
  also have "\<dots> = Inr (file_to_targets
                       (fold apply_step (map (\<lambda>src. Push (join dir src) lbl) ss) ?g))"
    by (rule Cons)
  finally show ?case by simp
qed

lemma pushes_keep_targets:
  "targets (fold apply_step (map (\<lambda>src. Push (h src) lbl) ss) g) = targets g"
  by (induction ss arbitrary: g) simp_all

lemma steps_keep_root:
  "graph_workspace_root (fold apply_step steps g) = graph_workspace_root g"
proof (induction steps arbitrary: g)
  case Nil
  then show ?case by simp
next
  case (Cons a steps)
  then show ?case by (cases a) simp_all
qed

lemma index_target_steps:
  assumes "parent path = Some dir"
  shows "index_target path t g = Inr (fold apply_step (target_steps dir t) g)"
proof -
  let ?pushes = "map (\<lambda>src. Push (join dir src) (label t)) (srcs t)"
  let ?g = "fold apply_step ?pushes g"
  have "g\<lparr>file_to_targets := file_to_targets ?g, targets := (targets g)(label t \<mapsto> t)\<rparr>
          = ?g\<lparr>targets := (targets ?g)(label t \<mapsto> t)\<rparr>"
    by (rule BuildGraph.equality) (simp_all add: pushes_keep_targets steps_keep_root)
  with push_srcs_steps [OF assms, of "label t" "srcs t" g] show ?thesis
    by (simp add: index_target_def target_steps_def)
qed

lemma index_pairs_steps:
  assumes "parent path = Some dir"
  shows "index_pairs env path pairs g
           = (rules_outcome env path pairs, fold apply_step (pair_steps env path dir pairs) g)"
proof (induction pairs arbitrary: g)
  case Nil
  then show ?case by simp
next
  case (Cons pair pairs)
  show ?case
  proof (cases "parse_rule env pair path")
    case (Inl e)
    then show ?thesis by simp
  next
    case (Inr found)
    show ?thesis
    proof (cases found)
      case None
      with Inr Cons show ?thesis by simp
    next
      case (Some t)
      with Inr Cons [of "fold apply_step (target_steps dir t) g"]
        index_target_steps [OF assms, of t g]
      show ?thesis by simp
    qed
  qed
qed

lemma parse_build_file_steps:
  assumes "parent path = Some dir"
  shows "parse_build_file env g path
           = (file_outcome env path, fold apply_step (file_steps env path) g)"
  using assms index_pairs_steps [OF assms]
  by (simp add: parse_build_file_def file_outcome_def file_steps_def split: sum.splits)

lemma pair_steps_declared:
  "pair_steps env path dir pairs = concat (map (target_steps dir) (declared env path pairs))"
  by (induction pairs) (simp_all split: sum.splits option.splits)

lemma file_steps_declared:
  assumes "parent path = Some dir"
  shows "file_steps env path = concat (map (target_steps dir) (file_declared env path))"
  using assms
  by (simp add: file_steps_def file_declared_def pair_steps_declared split: sum.splits)

subsection \<open>What a run of operations leaves in the maps\<close>

lemma labels_after_steps:
  "labels_at (file_to_targets (fold apply_step steps g)) p
     = labels_at (file_to_targets g) p @ pushes_at p steps"
proof (induction steps arbitrary: g)
  case Nil
  then show ?case by simp
next
  case (Cons a steps)
  show ?case
  proof (cases a)
    case (Push q l)
    with Cons [of "apply_step a g"] show ?thesis by (simp add: labels_at_def)
  next
    case (Insert l t)
    with Cons [of "apply_step a g"] show ?thesis by (simp add: labels_at_def)
  qed
qed

lemma pushes_at_set: "l \<in> set (pushes_at p steps) \<longleftrightarrow> Push p l \<in> set steps"
proof (induction steps)
  case Nil
  then show ?case by simp
next
  case (Cons a steps)
  then show ?case by (cases a) auto
qed

lemma targets_after_steps:
  assumes "Insert l t \<in> set steps"
  shows "\<exists>t'. targets (fold apply_step steps g) l = Some t' \<and> Insert l t' \<in> set steps"
  using assms
proof (induction steps arbitrary: g rule: rev_induct)
  case Nil
  then show ?case by simp
next
  case (snoc a steps)
  show ?case
  proof (cases "\<exists>t'. a = Insert l t'")
    case True
    then obtain t' where "a = Insert l t'" by blast
    then show ?thesis by simp
  next
    case False
    with snoc.prems have "Insert l t \<in> set steps" by auto
    from snoc.IH [OF this, of g] obtain t' where
      t': "targets (fold apply_step steps g) l = Some t'" "Insert l t' \<in> set steps"
      by blast
    from False have "targets (apply_step a (fold apply_step steps g)) l
                       = targets (fold apply_step steps g) l"
      by (cases a) auto
    with t' show ?thesis by auto
  qed
qed

subsection \<open>The operations of a scan\<close>

text \<open>
  The schedules give the interleavings of the calls and nothing else: the run under a
  schedule is an interleaving, and every interleaving is the run under some schedule.
\<close>

lemma is_interleaving_step:
  assumes "i < length tasks" and "tasks ! i = x # following"
    and "is_interleaving xs (tasks[i := following])"
  shows "is_interleaving (x # xs) tasks"
proof -
  from assms(2,3)
  have "case tasks ! i of
          [] \<Rightarrow> False
        | y # following \<Rightarrow> y = x \<and> is_interleaving xs (tasks[i := following])"
    by simp
  moreover from assms(1) have "i \<in> set [0..<length tasks]" by simp
  ultimately show ?thesis unfolding is_interleaving.simps list_ex_iff by blast
qed

lemma is_interleaving_in_turn:
  "concat before = [] \<Longrightarrow> is_interleaving (concat tasks) (before @ tasks)"
proof (induction tasks arbitrary: before)
  case Nil
  then show ?case by simp
next
  case (Cons t tasks)
  from Cons.prems show ?case
  proof (induction t)
    case Nil
    from Cons.IH [of "before @ [[]]"] Nil show ?case by simp
  next
    case (Cons x t)
    have "is_interleaving (x # (t @ concat tasks)) (before @ (x # t) # tasks)"
    proof (rule is_interleaving_step [where i = "length before" and following = t])
      show "length before < length (before @ (x # t) # tasks)" by simp
      show "(before @ (x # t) # tasks) ! length before = x # t" by simp
      from Cons show "is_interleaving (t @ concat tasks)
                        ((before @ (x # t) # tasks)[length before := t])" by simp
    qed
    then show ?case by simp
  qed
qed

lemma interleave_is_interleaving: "is_interleaving (interleave sched tasks) tasks"
proof (induction sched arbitrary: tasks)
  case Nil
  from is_interleaving_in_turn [of "[]" tasks] show ?case by simp
next
  case (Cons i sched)
  show ?case
  proof (cases "i < length tasks")
    case False
    with Cons show ?thesis by simp
  next
    case True
    show ?thesis
    proof (cases "tasks ! i")
      case Nil
      with True Cons show ?thesis by simp
    next
      case next_step: (Cons x following)
      from is_interleaving_step [OF True next_step Cons [of "tasks[i := following]"]]
        True next_step
      show ?thesis by simp
    qed
  qed
qed

lemma every_interleaving_scheduled:
  "is_interleaving xs tasks \<Longrightarrow> \<exists>sched. interleave sched tasks = xs"
proof (induction xs arbitrary: tasks)
  case Nil
  then have "interleave [] tasks = []" by simp
  then show ?case by blast
next
  case (Cons x xs)
  then obtain i where "i < length tasks"
    and "case tasks ! i of
           [] \<Rightarrow> False
         | y # following \<Rightarrow> y = x \<and> is_interleaving xs (tasks[i := following])"
    by (auto simp: list_ex_iff)
  then obtain following where i: "i < length tasks" "tasks ! i = x # following"
    and r: "is_interleaving xs (tasks[i := following])"
    by (cases "tasks ! i") auto
  from Cons.IH [OF r] obtain sched where "interleave sched (tasks[i := following]) = xs"
    by blast
  with i have "interleave (i # sched) tasks = x # xs" by simp
  then show ?case by blast
qed

text \<open>Whatever the schedule, the operations made are those of the calls.\<close>

lemma set_update_task:
  "i < length tasks \<Longrightarrow> tasks ! i = x # following
   \<Longrightarrow> insert x (\<Union> (set ` set (tasks[i := following]))) = \<Union> (set ` set tasks)"
proof (induction tasks arbitrary: i)
  case Nil
  then show ?case by simp
next
  case (Cons t tasks)
  show ?case
  proof (cases i)
    case 0
    with Cons.prems show ?thesis by auto
  next
    case (Suc j)
    with Cons.prems have "j < length tasks" and "tasks ! j = x # following" by simp_all
    from Cons.IH [OF this] have "\<Union> (set ` set tasks)
        = insert x (\<Union> (set ` set (tasks[j := following])))" by simp
    with Suc show ?thesis by simp
  qed
qed

lemma set_interleave: "set (interleave sched tasks) = \<Union> (set ` set tasks)"
proof (induction sched arbitrary: tasks)
  case Nil
  then show ?case by simp
next
  case (Cons i sched)
  show ?case
  proof (cases "i < length tasks")
    case False
    with Cons show ?thesis by simp
  next
    case True
    show ?thesis
    proof (cases "tasks ! i")
      case Nil
      with True Cons show ?thesis by simp
    next
      case next_step: (Cons x following)
      from True next_step Cons.IH [of "tasks[i := following]"]
        set_update_task [OF True next_step]
      show ?thesis by simp
    qed
  qed
qed

lemma target_steps_push:
  "Push p l \<in> set (target_steps dir t) \<longleftrightarrow> p \<in> set (map (join dir) (srcs t)) \<and> l = label t"
  by (auto simp: target_steps_def)

lemma target_steps_insert:
  "Insert l t' \<in> set (target_steps dir t) \<longleftrightarrow> l = label t \<and> t' = t"
  by (auto simp: target_steps_def)

lemma file_steps_push:
  "Push p l \<in> set (file_steps env f)
     \<longleftrightarrow> (\<exists>t \<in> set (file_declared env f). claims f t p \<and> l = label t)"
proof (cases "parent f")
  case None
  then show ?thesis by (simp add: file_steps_def claims_def)
next
  case (Some dir)
  then show ?thesis
    by (auto simp: file_steps_declared target_steps_push claims_def)
qed

lemma file_steps_insert:
  "Insert l t \<in> set (file_steps env f)
     \<longleftrightarrow> parent f \<noteq> None \<and> t \<in> set (file_declared env f) \<and> l = label t"
proof (cases "parent f")
  case None
  then show ?thesis by (simp add: file_steps_def)
next
  case (Some dir)
  then show ?thesis
    by (auto simp: file_steps_declared target_steps_insert)
qed

lemma scanned_set:
  "(f, t) \<in> set (scanned env root)
     \<longleftrightarrow> f \<in> set (walkdir env root) \<and> is_build_file f \<and> t \<in> set (file_declared env f)"
  by (auto simp: scanned_def scan_declared_def)

lemma scan_steps_set:
  "x \<in> set (scan_steps env root sched)
     \<longleftrightarrow> (\<exists>f \<in> set (walkdir env root). is_build_file f \<and> x \<in> set (file_steps env f))"
  by (auto simp: scan_steps_def set_interleave)

lemma scan_steps_push:
  "Push p l \<in> set (scan_steps env root sched)
     \<longleftrightarrow> (\<exists>f t. (f, t) \<in> set (scanned env root) \<and> claims f t p \<and> l = label t)"
  by (auto simp: scan_steps_set file_steps_push scanned_set)

lemma scan_steps_insert:
  "Insert l t \<in> set (scan_steps env root sched)
     \<longleftrightarrow> l = label t \<and> (\<exists>f. (f, t) \<in> set (scanned env root))"
proof
  assume "Insert l t \<in> set (scan_steps env root sched)"
  then show "l = label t \<and> (\<exists>f. (f, t) \<in> set (scanned env root))"
    by (auto simp: scan_steps_set file_steps_insert scanned_set)
next
  assume r: "l = label t \<and> (\<exists>f. (f, t) \<in> set (scanned env root))"
  then obtain f where f: "f \<in> set (walkdir env root)" "is_build_file f"
    "t \<in> set (file_declared env f)"
    by (auto simp: scanned_set)
  from f(2) have "parent f \<noteq> None" by (rule is_build_file_parent)
  with f r have "Insert l t \<in> set (file_steps env f)"
    by (simp add: file_steps_insert)
  with f show "Insert l t \<in> set (scan_steps env root sched)"
    unfolding scan_steps_set by blast
qed

text \<open>
  What a scan does, in one equation: it returns \<open>Ok(())\<close>, the graph is the one the
  operations of the calls leave, run in the order of the schedule, and the log gets the
  error of every file that failed, in the order of the files.
\<close>

lemma scan_workspace_effect:
  "scan_workspace env g root sched
     = (Inr (), fold apply_step (scan_steps env root sched) g,
        warnings (map (file_outcome env) (filter is_build_file (walkdir env root))))"
proof -
  have "fst (parse_build_file env g path) = file_outcome env path"
    if "path \<in> set (filter is_build_file (walkdir env root))" for path
  proof -
    from that have "is_build_file path" by simp
    then obtain dir where "parent path = Some dir"
      using is_build_file_parent by blast
    from parse_build_file_steps [OF this, of env g] show ?thesis by simp
  qed
  then have eq: "map (\<lambda>path. fst (parse_build_file env g path))
                   (filter is_build_file (walkdir env root))
                 = map (file_outcome env) (filter is_build_file (walkdir env root))"
    by (intro map_cong refl)
  show ?thesis unfolding scan_workspace_def Let_def eq by (rule refl)
qed

lemma distinct_labels_same:
  assumes "distinct (map (label \<circ> snd) items)"
    and "(f, t) \<in> set items" and "(f', t') \<in> set items" and "label t = label t'"
  shows "t = t'"
proof -
  from assms(1) have "inj_on (label \<circ> snd) (set items)" by (simp add: distinct_map)
  from inj_onD [OF this, of "(f, t)" "(f', t')"] assms(2-4) show ?thesis by simp
qed

text \<open>
  After a scan of a fresh graph in which no label is declared twice: when the vector
  of a path starts with a label, that label is the label of a target that lists the
  path among its sources, and the lookup returns that target.
\<close>

lemma first_push_claimant:
  assumes "distinct (map (label \<circ> snd) (scanned env root))"
    and "pushes_at p (scan_steps env root sched) = l # ls"
  shows "\<exists>f t. (f, t) \<in> set (scanned env root) \<and> claims f t p \<and> label t = l
           \<and> get_target_for_file
                (fold apply_step (scan_steps env root sched) (BuildGraph_empty root)) (FileUrl p)
              = Some t
           \<and> map_option snd (find (\<lambda>(f, t). claims f t p \<and> label t = l) (scanned env root))
              = Some t"
proof -
  let ?steps = "scan_steps env root sched"
  let ?g = "fold apply_step ?steps (BuildGraph_empty root)"
  let ?P = "\<lambda>(f, t). claims f t p \<and> label t = l"
  have "labels_at (file_to_targets ?g) p = pushes_at p ?steps"
    using labels_after_steps [of ?steps "BuildGraph_empty root" p]
    by (simp add: BuildGraph_empty_def labels_at_def)
  with assms(2) have get: "get_target_for_file ?g (FileUrl p) = targets ?g l"
    by (simp add: get_target_for_file_labels)
  from assms(2) have "l \<in> set (pushes_at p ?steps)" by simp
  then have "Push p l \<in> set ?steps" by (simp only: pushes_at_set)
  then obtain f t where ft: "(f, t) \<in> set (scanned env root)" "claims f t p" "label t = l"
    unfolding scan_steps_push by blast
  then have "Insert l t \<in> set ?steps"
    unfolding scan_steps_insert by blast
  from targets_after_steps [OF this, of "BuildGraph_empty root"] obtain t' where
    t': "targets ?g l = Some t'" "Insert l t' \<in> set ?steps" by blast
  from t'(2) obtain f' where f': "(f', t') \<in> set (scanned env root)" "label t' = l"
    unfolding scan_steps_insert by blast
  from ft(3) f'(2) have "label t = label t'" by simp
  from distinct_labels_same [OF assms(1) ft(1) f'(1) this] have same: "t' = t" by simp
  from ft have "\<exists>x \<in> set (scanned env root). ?P x" by blast
  then have "find ?P (scanned env root) \<noteq> None"
    unfolding find_None_iff by blast
  then obtain x where x: "find ?P (scanned env root) = Some x" by blast
  obtain f1 t1 where x1: "x = (f1, t1)" by (cases x)
  from x x1 have "(f1, t1) \<in> set (scanned env root)" and l1: "label t1 = l"
    by (auto simp: find_Some_iff in_set_conv_nth)
  moreover from ft(3) l1 have "label t = label t1" by simp
  ultimately have "t1 = t"
    using distinct_labels_same [OF assms(1) ft(1), of f1 t1] by simp
  with x x1 have found: "map_option snd (find ?P (scanned env root)) = Some t" by simp
  from get t'(1) same have "get_target_for_file ?g (FileUrl p) = Some t" by simp
  with ft found show ?thesis by blast
qed

lemma indexed_after_scan:
  assumes "(f, t) \<in> set (scanned env root)"
  shows "indexed (fold apply_step (scan_steps env root sched) g) f t"
  unfolding indexed_def
proof (intro conjI)
  let ?steps = "scan_steps env root sched"
  from assms have "Insert (label t) t \<in> set ?steps"
    by (auto simp: scan_steps_insert)
  from targets_after_steps [OF this, of g] obtain t' where
    "targets (fold apply_step ?steps g) (label t) = Some t'"
    and "Insert (label t) t' \<in> set ?steps" by blast
  then show "case targets (fold apply_step ?steps g) (label t) of
               None \<Rightarrow> False | Some t' \<Rightarrow> label t' = label t"
    by (auto simp: scan_steps_insert)
next
  let ?steps = "scan_steps env root sched"
  show "case parent f of
          None \<Rightarrow> True
        | Some dir \<Rightarrow>
            (\<forall>s \<in> set (srcs t).
               label t \<in> set (labels_at (file_to_targets (fold apply_step ?steps g)) (join dir s)))"
  proof (cases "parent f")
    case None
    then show ?thesis by simp
  next
    case (Some dir)
    have "label t \<in> set (labels_at (file_to_targets (fold apply_step ?steps g)) (join dir s))"
      if s: "s \<in> set (srcs t)" for s
    proof -
      from Some s have "claims f t (join dir s)" by (simp add: claims_def)
      with assms have "Push (join dir s) (label t) \<in> set ?steps"
        by (auto simp: scan_steps_push)
      then have "label t \<in> set (pushes_at (join dir s) ?steps)"
        by (simp add: pushes_at_set)
      then show ?thesis by (simp add: labels_after_steps)
    qed
    with Some show ?thesis by simp
  qed
qed

subsection \<open>The small workspace\<close>

lemma tree_file_lib:
  "BuildParser_parse Rule_file ''go_library(name = lib)'' = Inr [file_pair_lib]"
  unfolding file_pair_lib_def by code_simp

lemma tree_file_test:
  "BuildParser_parse Rule_file ''go_test(name = lib_test)'' = Inr [file_pair_test]"
  unfolding file_pair_test_def by code_simp

lemma tree_file_bad: "BuildParser_parse Rule_file ''go_library('' = Inl ParsingError"
  by code_simp

lemma file_pairs_differ: "file_pair_lib \<noteq> file_pair_test" "file_pair_test \<noteq> file_pair_lib"
  by (simp_all add: file_pair_lib_def file_pair_test_def)

lemma parent_pkg_build: "parent pkg_build = Some [''/'', ''w'', ''pkg'']"
  by (simp add: parent_def pkg_build_def)

lemma parent_pkg_bazel: "parent pkg_bazel = Some [''/'', ''w'', ''pkg'']"
  by (simp add: parent_def pkg_bazel_def)

lemma join_pkg_a_go: "join [''/'', ''w'', ''pkg''] ''a.go'' = a_go"
  by (simp add: join_def is_absolute_def components_def a_go_def)

lemma join_pkg_a_test_go:
  "join [''/'', ''w'', ''pkg''] ''a_test.go'' = [''/'', ''w'', ''pkg'', ''a_test.go'']"
  by (simp add: join_def is_absolute_def components_def)

lemma is_build_file_pkg_build: "is_build_file pkg_build"
  by (simp add: is_build_file_def pkg_build_def path_starts_with_def)

lemma is_build_file_pkg_bazel: "is_build_file pkg_bazel"
  by (simp add: is_build_file_def pkg_bazel_def path_starts_with_def)

lemma is_build_file_lib_build: "is_build_file lib_build"
  by (simp add: is_build_file_def lib_build_def path_starts_with_def)

lemma files_world_two:
  "filter is_build_file (walkdir world_two root) = [pkg_build, pkg_bazel]"
proof -
  have "\<not> is_build_file [''/'', ''w'', ''README.md'']"
    by (simp add: is_build_file_def)
  then show ?thesis
    by (simp add: world_two_def is_build_file_pkg_build is_build_file_pkg_bazel)
qed

lemma declared_world_two:
  "file_declared world_two pkg_build = [test_target]"
  "file_declared world_two pkg_bazel = [lib_target]"
  by (simp_all add: file_declared_def world_two_def tree_file_lib tree_file_test
      file_pairs_differ pkg_build_def pkg_bazel_def)

lemma scanned_world_two:
  "scanned world_two root = [(pkg_build, test_target), (pkg_bazel, lib_target)]"
  unfolding scanned_def files_world_two
  by (simp add: scan_declared_def declared_world_two)

lemma steps_world_two:
  "file_steps world_two pkg_build
     = [Push a_go ''//pkg:lib_test'', Push [''/'', ''w'', ''pkg'', ''a_test.go''] ''//pkg:lib_test'',
        Insert ''//pkg:lib_test'' test_target]"
  "file_steps world_two pkg_bazel = [Push a_go ''//pkg:lib'', Insert ''//pkg:lib'' lib_target]"
  by (simp_all add: file_steps_declared [OF parent_pkg_build]
      file_steps_declared [OF parent_pkg_bazel] declared_world_two target_steps_def
      join_pkg_a_go join_pkg_a_test_go test_target_def lib_target_def)

text \<open>
  Two schedules of the scan of \<open>world_two\<close>: the calls one after the other, and the
  call for \<open>pkg/BUILD.bazel\<close> making its first push before the call for \<open>pkg/BUILD\<close>
  starts.
\<close>

lemma scan_steps_world_two_in_turn:
  "scan_steps world_two root []
     = [Push a_go ''//pkg:lib_test'', Push [''/'', ''w'', ''pkg'', ''a_test.go''] ''//pkg:lib_test'',
        Insert ''//pkg:lib_test'' test_target,
        Push a_go ''//pkg:lib'', Insert ''//pkg:lib'' lib_target]"
  unfolding scan_steps_def files_world_two by (simp add: steps_world_two)

lemma scan_steps_world_two_second_first:
  "scan_steps world_two root [1]
     = [Push a_go ''//pkg:lib'',
        Push a_go ''//pkg:lib_test'', Push [''/'', ''w'', ''pkg'', ''a_test.go''] ''//pkg:lib_test'',
        Insert ''//pkg:lib_test'' test_target,
        Insert ''//pkg:lib'' lib_target]"
  unfolding scan_steps_def files_world_two by (simp add: steps_world_two)

lemma claims_world_two:
  "claims pkg_build test_target a_go" "claims pkg_bazel lib_target a_go"
  by (simp_all add: claims_def parent_pkg_build parent_pkg_bazel test_target_def lib_target_def
      join_pkg_a_go)

lemma targets_differ: "lib_target \<noteq> test_target" "test_target \<noteq> lib_target"
  by (simp_all add: lib_target_def test_target_def)

lemma labels_world_two:
  "label test_target = ''//pkg:lib_test''" "label lib_target = ''//pkg:lib''"
  by (simp_all add: test_target_def lib_target_def)

lemma outcomes_world_a:
  "file_outcome world_a lib_build = Inl (Pest ParsingError)"
  "file_outcome world_a pkg_build = Inr ()"
  by (simp_all add: file_outcome_def world_a_def tree_file_lib tree_file_bad
      lib_build_def pkg_build_def)

lemma outcomes_world_b:
  "file_outcome world_b lib_build = Inr ()"
  "file_outcome world_b pkg_build = Inl (Pest ParsingError)"
  by (simp_all add: file_outcome_def world_b_def tree_file_lib tree_file_bad
      lib_build_def pkg_build_def)

lemma files_world_a: "filter is_build_file (walkdir world_a root) = [lib_build, pkg_build]"
  by (simp add: world_a_def is_build_file_pkg_build is_build_file_lib_build)

lemma files_world_b: "filter is_build_file (walkdir world_b root) = [lib_build, pkg_build]"
  by (simp add: world_b_def is_build_file_pkg_build is_build_file_lib_build)

subsection \<open>The lookup after a scan\<close>

text \<open>
  C3, as the code has it.  After a scan of a fresh graph in which no label is declared
  twice, the vector kept for a path holds the labels of the targets that list the path
  among their sources, in the order in which the calls of the scan pushed them, and
  \<open>get_target_for_file\<close> returns the target of the first label of that vector,
  whatever its kind, and \<open>None\<close> when no target lists the path.  The order of the
  pushes of different files is the schedule's.
\<close>

theorem lookup_returns_first_pushed:
  assumes "distinct (map (label \<circ> snd) (scanned env root))"
  shows "get_target_for_file
           (fst (snd (scan_workspace env (BuildGraph_empty root) root sched))) (FileUrl p)
         = (case pushes_at p (scan_steps env root sched) of
              [] \<Rightarrow> None
            | l # ls \<Rightarrow>
                map_option snd
                  (find (\<lambda>(f, t). claims f t p \<and> label t = l) (scanned env root)))
       \<and> set (pushes_at p (scan_steps env root sched))
         = set (map (label \<circ> snd) (filter (\<lambda>(f, t). claims f t p) (scanned env root)))"
proof (intro conjI)
  let ?steps = "scan_steps env root sched"
  let ?g = "fold apply_step ?steps (BuildGraph_empty root)"
  have g: "fst (snd (scan_workspace env (BuildGraph_empty root) root sched)) = ?g"
    by (simp add: scan_workspace_effect)
  show "get_target_for_file
          (fst (snd (scan_workspace env (BuildGraph_empty root) root sched))) (FileUrl p)
        = (case pushes_at p ?steps of
             [] \<Rightarrow> None
           | l # ls \<Rightarrow>
               map_option snd
                 (find (\<lambda>(f, t). claims f t p \<and> label t = l) (scanned env root)))"
  proof (cases "pushes_at p ?steps")
    case Nil
    have "labels_at (file_to_targets ?g) p = pushes_at p ?steps"
      using labels_after_steps [of ?steps "BuildGraph_empty root" p]
      by (simp add: BuildGraph_empty_def labels_at_def)
    with Nil g show ?thesis by (simp add: get_target_for_file_labels)
  next
    case (Cons l ls)
    from first_push_claimant [OF assms this] g Cons show ?thesis by auto
  qed
next
  show "set (pushes_at p (scan_steps env root sched))
          = set (map (label \<circ> snd) (filter (\<lambda>(f, t). claims f t p) (scanned env root)))"
  proof (rule set_eqI)
    fix l
    have "l \<in> set (pushes_at p (scan_steps env root sched))
            \<longleftrightarrow> (\<exists>f t. (f, t) \<in> set (scanned env root) \<and> claims f t p \<and> l = label t)"
      by (simp add: pushes_at_set scan_steps_push)
    also have "\<dots> \<longleftrightarrow> l \<in> set (map (label \<circ> snd)
                               (filter (\<lambda>(f, t). claims f t p) (scanned env root)))"
      by force
    finally show "l \<in> set (pushes_at p (scan_steps env root sched))
            \<longleftrightarrow> l \<in> set (map (label \<circ> snd)
                          (filter (\<lambda>(f, t). claims f t p) (scanned env root)))" .
  qed
qed

theorem lookup_returns_first_pushed_witness:
  "distinct (map (label \<circ> snd) (scanned world_two [''/'', ''w'']))
   \<and> pushes_at a_go (scan_steps world_two [''/'', ''w''] [1]) = [''//pkg:lib'', ''//pkg:lib_test'']
   \<and> get_target_for_file
       (fst (snd (scan_workspace world_two (BuildGraph_empty [''/'', ''w'']) [''/'', ''w''] [1])))
       (FileUrl a_go)
     = Some lib_target"
proof -
  have d: "distinct (map (label \<circ> snd) (scanned world_two [''/'', ''w'']))"
    by (simp add: scanned_world_two labels_world_two)
  have pushes: "pushes_at a_go (scan_steps world_two [''/'', ''w''] [1])
                  = [''//pkg:lib'', ''//pkg:lib_test'']"
    unfolding scan_steps_world_two_second_first by (simp add: a_go_def)
  from lookup_returns_first_pushed [OF d, where p = a_go and sched = "[1]", THEN conjunct1]
  have "get_target_for_file
          (fst (snd (scan_workspace world_two (BuildGraph_empty [''/'', ''w'']) [''/'', ''w''] [1])))
          (FileUrl a_go)
        = Some lib_target"
    unfolding pushes scanned_world_two
    by (simp add: claims_world_two labels_world_two)
  with d pushes show ?thesis by simp
qed

text \<open>
  C3, as the specification states it, fails: in \<open>world_two\<close> the library and the test
  both list \<open>a.go\<close>; when the calls run one after the other in the order of the walk
  the label of the test is pushed first, and the lookup returns the test target.
\<close>

theorem lookup_returns_test_target_counterexample:
  "get_target_for_file
     (fst (snd (scan_workspace world_two (BuildGraph_empty [''/'', ''w'']) [''/'', ''w''] [])))
     (FileUrl a_go)
     = Some test_target
   \<and> target_kind test_target = ''go_test''
   \<and> target_kind lib_target = ''go_library''
   \<and> scanned world_two [''/'', ''w''] = [(pkg_build, test_target), (pkg_bazel, lib_target)]
   \<and> claims pkg_build test_target a_go \<and> claims pkg_bazel lib_target a_go"
proof -
  have "get_target_for_file
          (fold apply_step (scan_steps world_two [''/'', ''w''] []) (BuildGraph_empty [''/'', ''w'']))
          (FileUrl a_go)
        = Some test_target"
    unfolding scan_steps_world_two_in_turn
    by (simp add: BuildGraph_empty_def get_target_for_file_def a_go_def)
  moreover have "target_kind test_target = ''go_test''" "target_kind lib_target = ''go_library''"
    by (simp_all add: test_target_def lib_target_def)
  ultimately show ?thesis
    by (simp add: scan_workspace_effect scanned_world_two claims_world_two)
qed

text \<open>
  C7, as the code has it.  After a scan of a fresh graph in which no label is declared
  twice, a source \<open>s\<close> of a target resolves, through the directory of its BUILD file,
  to a path for which \<open>get_target_for_file\<close> returns a target that lists that path.
  It returns the target itself exactly when the label of the target is the first that
  the scan pushed for the path, which is so whenever no other target lists the path.
\<close>

theorem round_trip_first_pushed:
  assumes "distinct (map (label \<circ> snd) (scanned env root))"
    and "(f, t) \<in> set (scanned env root)"
    and "parent f = Some dir"
    and "s \<in> set (srcs t)"
  shows "(get_target_for_file
            (fst (snd (scan_workspace env (BuildGraph_empty root) root sched)))
            (FileUrl (join dir s)) = Some t
          \<longleftrightarrow> hd (pushes_at (join dir s) (scan_steps env root sched)) = label t)
       \<and> (\<exists>(f', t') \<in> set (scanned env root).
            claims f' t' (join dir s)
            \<and> get_target_for_file
                (fst (snd (scan_workspace env (BuildGraph_empty root) root sched)))
                (FileUrl (join dir s)) = Some t')
       \<and> ((\<forall>(f', t') \<in> set (scanned env root). claims f' t' (join dir s) \<longrightarrow> t' = t)
          \<longrightarrow> get_target_for_file
                (fst (snd (scan_workspace env (BuildGraph_empty root) root sched)))
                (FileUrl (join dir s)) = Some t)"
proof -
  let ?p = "join dir s"
  let ?steps = "scan_steps env root sched"
  let ?got = "get_target_for_file
                (fst (snd (scan_workspace env (BuildGraph_empty root) root sched))) (FileUrl ?p)"
  have g: "fst (snd (scan_workspace env (BuildGraph_empty root) root sched))
             = fold apply_step ?steps (BuildGraph_empty root)"
    by (simp add: scan_workspace_effect)
  from assms(3,4) have "claims f t ?p" by (simp add: claims_def)
  with assms(2) have "Push ?p (label t) \<in> set ?steps"
    by (auto simp: scan_steps_push)
  then have "label t \<in> set (pushes_at ?p ?steps)" by (simp add: pushes_at_set)
  then obtain l ls where first: "pushes_at ?p ?steps = l # ls"
    by (cases "pushes_at ?p ?steps") auto
  from first_push_claimant [OF assms(1) first] g obtain f1 t1 where
    c: "(f1, t1) \<in> set (scanned env root)" "claims f1 t1 ?p" "label t1 = l"
    and got: "?got = Some t1" by auto
  have "t1 = t \<longleftrightarrow> l = label t"
    using c assms(2) distinct_labels_same [OF assms(1), of f1 t1 f t] by auto
  with got first have one: "?got = Some t \<longleftrightarrow> hd (pushes_at ?p ?steps) = label t" by simp
  from c got have two: "\<exists>(f', t') \<in> set (scanned env root). claims f' t' ?p \<and> ?got = Some t'"
    by blast
  from c got have three:
    "(\<forall>(f', t') \<in> set (scanned env root). claims f' t' ?p \<longrightarrow> t' = t) \<longrightarrow> ?got = Some t"
    by blast
  from one two three show ?thesis by (intro conjI)
qed

theorem round_trip_first_pushed_witness:
  "(pkg_build, test_target) \<in> set (scanned world_two [''/'', ''w''])
   \<and> ''a.go'' \<in> set (srcs test_target)
   \<and> hd (pushes_at (join [''/'', ''w'', ''pkg''] ''a.go'') (scan_steps world_two [''/'', ''w''] []))
       = label test_target
   \<and> get_target_for_file
       (fst (snd (scan_workspace world_two (BuildGraph_empty [''/'', ''w'']) [''/'', ''w''] [])))
       (FileUrl (join [''/'', ''w'', ''pkg''] ''a.go''))
     = Some test_target"
proof -
  have d: "distinct (map (label \<circ> snd) (scanned world_two [''/'', ''w'']))"
    by (simp add: scanned_world_two labels_world_two)
  have mem: "(pkg_build, test_target) \<in> set (scanned world_two [''/'', ''w''])"
    by (simp add: scanned_world_two)
  have src: "''a.go'' \<in> set (srcs test_target)"
    by (simp add: test_target_def)
  have first: "hd (pushes_at (join [''/'', ''w'', ''pkg''] ''a.go'')
                     (scan_steps world_two [''/'', ''w''] [])) = label test_target"
    by (simp add: scan_steps_world_two_in_turn join_pkg_a_go labels_world_two a_go_def)
  from round_trip_first_pushed [OF d mem parent_pkg_build src, where sched = "[]", THEN conjunct1] first
  have "get_target_for_file
          (fst (snd (scan_workspace world_two (BuildGraph_empty [''/'', ''w'']) [''/'', ''w''] [])))
          (FileUrl (join [''/'', ''w'', ''pkg''] ''a.go''))
        = Some test_target"
    by simp
  with mem src first show ?thesis by (intro conjI)
qed

text \<open>
  C7, as the specification states it, fails: in \<open>world_two\<close> the test lists \<open>a.go\<close>
  among its sources, but when the call for \<open>pkg/BUILD.bazel\<close> makes its push for
  \<open>a.go\<close> first, the lookup of that path returns the library.
\<close>

theorem round_trip_other_claimant_counterexample:
  "(pkg_build, test_target) \<in> set (scanned world_two [''/'', ''w''])
   \<and> parent pkg_build = Some [''/'', ''w'', ''pkg'']
   \<and> ''a.go'' \<in> set (srcs test_target)
   \<and> get_target_for_file
       (fst (snd (scan_workspace world_two (BuildGraph_empty [''/'', ''w'']) [''/'', ''w''] [1])))
       (FileUrl (join [''/'', ''w'', ''pkg''] ''a.go''))
     = Some lib_target
   \<and> lib_target \<noteq> test_target"
proof -
  have "get_target_for_file
          (fold apply_step (scan_steps world_two [''/'', ''w''] [1]) (BuildGraph_empty [''/'', ''w'']))
          (FileUrl (join [''/'', ''w'', ''pkg''] ''a.go''))
        = Some lib_target"
    unfolding scan_steps_world_two_second_first join_pkg_a_go
    by (simp add: BuildGraph_empty_def get_target_for_file_def a_go_def)
  moreover have "''a.go'' \<in> set (srcs test_target)"
    by (simp add: test_target_def)
  ultimately show ?thesis
    by (simp add: scan_workspace_effect scanned_world_two parent_pkg_build targets_differ)
qed

subsection \<open>A scan with a failing file\<close>

lemma warnings_outcomes:
  "warnings (map out files)
     = concat (map (\<lambda>f. case out f of Inl e \<Rightarrow> [e] | Inr u \<Rightarrow> []) files)"
proof (induction files)
  case Nil
  then show ?case by simp
next
  case (Cons f files)
  then show ?case by (cases "out f") simp_all
qed

lemma concat_single:
  assumes "filter (\<lambda>x. h x \<noteq> []) xs = [y]"
  shows "concat (map h xs) = h y"
  using assms
proof (induction xs)
  case Nil
  then show ?case by simp
next
  case (Cons x xs)
  show ?case
  proof (cases "h x = []")
    case True
    with Cons show ?thesis by simp
  next
    case False
    with Cons.prems have "x = y" and "filter (\<lambda>x. h x \<noteq> []) xs = []" by simp_all
    then have "\<forall>z \<in> set xs. h z = []" by (simp add: filter_empty_conv)
    then have "concat (map h xs) = []" by simp
    with \<open>x = y\<close> show ?thesis by simp
  qed
qed

lemma warnings_single:
  assumes "filter (\<lambda>f'. out f' \<noteq> Inr ()) files = [f]"
    and "out f = Inl e"
  shows "warnings (map out files) = [e]"
proof -
  let ?h = "\<lambda>f. case out f of Inl e \<Rightarrow> [e] | Inr u \<Rightarrow> []"
  have "(?h f' \<noteq> []) = (out f' \<noteq> Inr ())" for f'
    by (cases "out f'") simp_all
  then have "filter (\<lambda>f'. ?h f' \<noteq> []) files = filter (\<lambda>f'. out f' \<noteq> Inr ()) files"
    by simp
  with assms(1) have "concat (map ?h files) = ?h f" by (intro concat_single) simp
  with warnings_outcomes [of out files] assms(2) show ?thesis by simp
qed

text \<open>
  C5, as the code has it.  When exactly one BUILD file of the walk fails (it cannot be
  read, it does not match the grammar, or \<open>parse_rule\<close> fails on it) and every other one
  succeeds, the scan returns \<open>Ok(())\<close>, hands exactly one error to the log, the one of
  the failing file, and has indexed every target of every other file; this whatever
  the schedule of the calls.
\<close>

theorem scan_isolates_failing_file:
  assumes "filter (\<lambda>f'. file_outcome env f' \<noteq> Inr ())
             (filter is_build_file (walkdir env root)) = [f]"
    and "file_outcome env f = Inl e"
  shows "\<exists>g. scan_workspace env self root sched = (Inr (), g, [e])
           \<and> (\<forall>f' \<in> set (filter is_build_file (walkdir env root)). f' \<noteq> f \<longrightarrow>
                 (\<forall>t \<in> set (file_declared env f'). indexed g f' t))"
proof -
  let ?files = "filter is_build_file (walkdir env root)"
  let ?g = "fold apply_step (scan_steps env root sched) self"
  from warnings_single [OF assms]
  have scan: "scan_workspace env self root sched = (Inr (), ?g, [e])"
    by (simp add: scan_workspace_effect)
  have "\<forall>f' \<in> set ?files. \<forall>t \<in> set (file_declared env f'). indexed ?g f' t"
  proof (intro ballI)
    fix f' t assume "f' \<in> set ?files" and "t \<in> set (file_declared env f')"
    then have "(f', t) \<in> set (scanned env root)"
      by (simp add: scanned_set)
    then show "indexed ?g f' t" by (rule indexed_after_scan)
  qed
  with scan show ?thesis by simp
qed

theorem scan_isolates_failing_file_witness:
  "file_outcome world_a lib_build = Inl (Pest ParsingError)
   \<and> file_outcome world_a pkg_build = Inr ()
   \<and> (\<exists>g. scan_workspace world_a (BuildGraph_empty [''/'', ''w'']) [''/'', ''w''] [1, 0]
             = (Inr (), g, [Pest ParsingError])
          \<and> indexed g pkg_build lib_target)"
proof -
  have one: "filter (\<lambda>f'. file_outcome world_a f' \<noteq> Inr ())
               (filter is_build_file (walkdir world_a [''/'', ''w''])) = [lib_build]"
    unfolding files_world_a by (simp add: outcomes_world_a)
  have declared: "lib_target \<in> set (file_declared world_a pkg_build)"
    by (simp add: file_declared_def world_a_def tree_file_lib)
  have other: "pkg_build \<in> set (filter is_build_file (walkdir world_a [''/'', ''w'']))"
    "pkg_build \<noteq> lib_build"
    unfolding files_world_a by (simp_all add: pkg_build_def lib_build_def)
  from scan_isolates_failing_file
    [OF one outcomes_world_a(1), where self = "BuildGraph_empty [''/'', ''w'']"
       and sched = "[1, 0]"]
  obtain g where "scan_workspace world_a (BuildGraph_empty [''/'', ''w'']) [''/'', ''w''] [1, 0]
                    = (Inr (), g, [Pest ParsingError])"
    and "\<forall>f' \<in> set (filter is_build_file (walkdir world_a [''/'', ''w''])). f' \<noteq> lib_build \<longrightarrow>
           (\<forall>t \<in> set (file_declared world_a f'). indexed g f' t)"
    by blast
  with declared other
  have "\<exists>g. scan_workspace world_a (BuildGraph_empty [''/'', ''w'']) [''/'', ''w''] [1, 0]
             = (Inr (), g, [Pest ParsingError]) \<and> indexed g pkg_build lib_target"
    by blast
  with outcomes_world_a show ?thesis by simp
qed

text \<open>
  C5, as the specification states it, fails on the scope of the diagnostic: whether it
  is \<open>lib/BUILD\<close> or \<open>pkg/BUILD\<close> that is cut short, the scan returns \<open>Ok(())\<close> and
  the one warning logged is the same, so it does not tell which file failed.
\<close>

theorem scan_warning_names_no_file_counterexample:
  "fst (scan_workspace world_a (BuildGraph_empty [''/'', ''w'']) [''/'', ''w''] []) = Inr ()
   \<and> snd (snd (scan_workspace world_a (BuildGraph_empty [''/'', ''w'']) [''/'', ''w''] []))
       = [Pest ParsingError]
   \<and> fst (scan_workspace world_b (BuildGraph_empty [''/'', ''w'']) [''/'', ''w''] []) = Inr ()
   \<and> snd (snd (scan_workspace world_b (BuildGraph_empty [''/'', ''w'']) [''/'', ''w''] []))
       = [Pest ParsingError]
   \<and> file_outcome world_a lib_build = Inl (Pest ParsingError)
   \<and> file_outcome world_a pkg_build = Inr ()
   \<and> file_outcome world_b lib_build = Inr ()
   \<and> file_outcome world_b pkg_build = Inl (Pest ParsingError)"
  unfolding scan_workspace_effect files_world_a files_world_b
  by (simp add: outcomes_world_a outcomes_world_b)

end
